theory Spec2Isabelle
  imports Main "HOL-Library.Word" "HOL-Library.Char_ord" "HOL-Library.List_Lexorder"
    "HOL-Library.Product_Lexorder"
begin

section \<open>Strings\<close>

text \<open>
  Python \<open>str\<close> values are modelled as \<open>string\<close>: the UTF-8 bytes of the text.
  The two path separators (slash and backslash) and the letters that \<open>lower\<close>
  changes below are ASCII, so splitting, suffix tests and substring tests on the bytes
  agree with the tests on code points. \<open>lower\<close> folds the ASCII letters only: it is
  \<open>str.lower()\<close> on names and extensions without letters beyond ASCII.
\<close>

definition backslash :: char where
  "backslash = CHR 0x5C"

definition lower_chr :: "char \<Rightarrow> char" where
  "lower_chr c =
     (if CHR ''A'' \<le> c \<and> c \<le> CHR ''Z'' then char_of (of_char c + (32::nat)) else c)"

definition lower :: "string \<Rightarrow> string" where
  "lower s = map lower_chr s"

text \<open>\<open>s.replace(a, b)\<close> for one-character \<open>a\<close> and \<open>b\<close>.\<close>

definition replace_chr :: "char \<Rightarrow> char \<Rightarrow> string \<Rightarrow> string" where
  "replace_chr a b s = map (\<lambda>c. if c = a then b else c) s"

text \<open>\<open>s.split(d)\<close> for a one-character \<open>d\<close>: empty pieces are kept, and the
  empty string splits into one empty piece.\<close>

fun split_chr :: "char \<Rightarrow> string \<Rightarrow> string list" where
  "split_chr d [] = [[]]"
| "split_chr d (c # cs) =
     (if c = d then [] # split_chr d cs
      else (case split_chr d cs of
              [] \<Rightarrow> [[c]]
            | p # ps \<Rightarrow> (c # p) # ps))"

text \<open>\<open>s.endswith(suffix)\<close>.\<close>

definition endswith :: "string \<Rightarrow> string \<Rightarrow> bool" where
  "endswith s suffix =
     (length suffix \<le> length s \<and> drop (length s - length suffix) s = suffix)"

text \<open>\<open>s.startswith(p)\<close>.\<close>

fun startswith :: "string \<Rightarrow> string \<Rightarrow> bool" where
  "startswith s [] = True"
| "startswith [] (p # ps) = False"
| "startswith (c # cs) (p # ps) = (c = p \<and> startswith cs ps)"

text \<open>\<open>p in s\<close> on strings: \<open>p\<close> occurs in \<open>s\<close> as a contiguous substring.\<close>

fun str_contains :: "string \<Rightarrow> string \<Rightarrow> bool" where
  "str_contains [] p = (p = [])"
| "str_contains (c # cs) p = (startswith (c # cs) p \<or> str_contains cs p)"

section \<open>The operating system\<close>

text \<open>
  The functions of \<open>os\<close>, \<open>os.path\<close>, \<open>mimetypes\<close> and \<open>tiktoken\<close> that the
  program calls are parameters of the model. A function that can raise returns
  \<open>None\<close> (or \<open>Inl\<close> with the text of the exception) where it raises.
  \<open>generated_iid\<close> is the name that the tree view gives to the n-th item it names
  itself.
\<close>

type_synonym byte = "8 word"

text \<open>An exception, with the text \<open>str(e)\<close> that the program prints.\<close>

datatype exn = PermissionError string | OtherError string

text \<open>
  What the successive calls of \<open>os.scandir\<close> below a directory return: a file, a
  directory with its entries, or a directory whose scan raises.
\<close>

datatype dentry =
    FileEntry string
  | DirEntry string "dentry list"
  | FailDir string exn

text \<open>
  What \<open>os.walk\<close> yields below a directory: its path as \<open>os.walk\<close> reports it, its
  subdirectories by name (\<open>None\<close> for one that \<open>os.walk\<close> lists and does not enter: a
  link, or a directory it cannot scan) and its other entries.
\<close>

datatype wtree = WDir string "(string \<times> wtree option) list" "string list"

record os =
  realpath :: "string \<Rightarrow> string option"
  realpath_error :: "string \<Rightarrow> string"
  normpath :: "string \<Rightarrow> string"
  join :: "string \<Rightarrow> string \<Rightarrow> string"
  relpath :: "string \<Rightarrow> string \<Rightarrow> string + string"
  dirname :: "string \<Rightarrow> string"
  basename :: "string \<Rightarrow> string"
  commonpath :: "string list \<Rightarrow> string + string"
  splitext_ext :: "string \<Rightarrow> string"
  path_exists :: "string \<Rightarrow> bool"
  islink :: "string \<Rightarrow> bool"
  isdir :: "string \<Rightarrow> bool"
  isfile :: "string \<Rightarrow> bool"
  listdir :: "string \<Rightarrow> string list option"
  scandir :: "string \<Rightarrow> exn + dentry list"
  walk :: "string \<Rightarrow> wtree option"
  read_bytes :: "string \<Rightarrow> byte list option"
  read_text :: "string \<Rightarrow> string + string"
  guess_extension :: "string \<Rightarrow> string"
  count_tokens :: "string \<Rightarrow> nat option"
  generated_iid :: "nat \<Rightarrow> string"

section \<open>FileHandler\<close>

definition DEFAULT_EXCLUDE_PATTERNS :: "string set" where
  "DEFAULT_EXCLUDE_PATTERNS =
     {''node_modules'', ''venv'', ''myenv'', ''.venv'', ''__pycache__'', ''.git'', ''.idea'',
      ''.vs'', ''.vscode'', ''dist'', ''build'', ''target'', ''vendor'', ''.pytest_cache'',
      ''.mypy_cache'', ''.next'', ''coverage'', ''env'', ''.env'', ''.env.local'',
      ''.gitignore''}"

text \<open>\<open>FileHandler.is_safe_path\<close>: the visited set is passed in and returned.\<close>

definition is_safe_path :: "os \<Rightarrow> string \<Rightarrow> string set \<Rightarrow> bool \<times> string set" where
  "is_safe_path sys path visited_paths =
     (case realpath sys path of
        None \<Rightarrow> (False, visited_paths)
      | Some real_path \<Rightarrow>
          if real_path \<in> visited_paths then (False, visited_paths)
          else (True, insert real_path visited_paths))"

text \<open>\<open>FileHandler.should_exclude\<close>.\<close>

definition should_exclude :: "string set \<Rightarrow> string \<Rightarrow> bool" where
  "should_exclude exclude_patterns path =
     (let path_parts = split_chr CHR ''/'' (replace_chr backslash CHR ''/'' path)
      in list_ex (\<lambda>part. part \<in> exclude_patterns) path_parts)"

section \<open>TokenCounter\<close>

definition BINARY_EXTENSIONS :: "string set" where
  "BINARY_EXTENSIONS =
     {''.woff'', ''.woff2'', ''.ttf'', ''.eot'', ''.otf'',
      ''.jpg'', ''.jpeg'', ''.png'', ''.gif'', ''.bmp'', ''.ico'', ''.webp'',
      ''.pdf'', ''.doc'', ''.docx'',
      ''.zip'', ''.rar'', ''.7z'', ''.tar'', ''.gz'',
      ''.exe'', ''.dll'', ''.so'', ''.dylib'',
      ''.pyc'', ''.pyo''}"

text \<open>\<open>{7,8,9,10,12,13,27} | set(range(0x20, 0x100)) - {0x7f}\<close>: the difference
  binds tighter than the union.\<close>

definition textchars :: "nat set" where
  "textchars = {7, 8, 9, 10, 12, 13, 27} \<union> (set [0x20 ..< 0x100] - {0x7f})"

text \<open>\<open>TokenCounter.is_binary_file\<close>. \<open>chunk.translate(None, textchars)\<close> deletes
  the bytes of \<open>textchars\<close> from the chunk; the file is binary when a byte is left.\<close>

definition is_binary_file :: "os \<Rightarrow> string \<Rightarrow> bool" where
  "is_binary_file sys filepath =
     (let ext = guess_extension sys filepath in
      if lower ext \<in> BINARY_EXTENSIONS then True
      else (case read_bytes sys filepath of
              None \<Rightarrow> True
            | Some content \<Rightarrow>
                (let chunk = take 1024 content
                 in filter (\<lambda>b. unat b \<notin> textchars) chunk \<noteq> [])))"

text \<open>\<open>TokenCounter.count_tokens_in_file\<close>: \<open>None\<close> is the \<open>IOError\<close>, raised when the
  file cannot be read as text or when the tokenizer raises (\<open>count_tokens\<close> is \<open>None\<close>).\<close>

definition count_tokens_in_file :: "os \<Rightarrow> string \<Rightarrow> nat option" where
  "count_tokens_in_file sys filepath =
     (if is_binary_file sys filepath then Some 0
      else (case read_text sys filepath of
              Inl e \<Rightarrow> None
            | Inr content \<Rightarrow> count_tokens sys content))"

text \<open>An operating system where nothing exists, the base of the examples.\<close>

definition void_os :: os where
  "void_os =
     \<lparr>realpath = (\<lambda>p. Some p), realpath_error = (\<lambda>p. []), normpath = (\<lambda>p. p),
      join = (\<lambda>a b. if a = [] then b else a @ ''/'' @ b),
      relpath = (\<lambda>p start. Inr p), dirname = (\<lambda>p. p), basename = (\<lambda>p. p),
      commonpath = (\<lambda>ps. Inl ''commonpath() arg is an empty sequence''),
      splitext_ext = (\<lambda>p. []),
      path_exists = (\<lambda>p. False), islink = (\<lambda>p. False), isdir = (\<lambda>p. False),
      isfile = (\<lambda>p. False), listdir = (\<lambda>p. None),
      scandir = (\<lambda>p. Inl (OtherError ''No such file or directory'')),
      walk = (\<lambda>p. None), read_bytes = (\<lambda>p. None),
      read_text = (\<lambda>p. Inl ''No such file or directory''),
      guess_extension = (\<lambda>p. []), count_tokens = (\<lambda>content. Some (length content)),
      generated_iid = (\<lambda>n. ''I'' @ replicate n CHR ''|'')\<rparr>"

section \<open>Path components, as the specification words them\<close>

definition is_sep :: "char \<Rightarrow> bool" where
  "is_sep c = (c = CHR ''/'' \<or> c = backslash)"

text \<open>\<open>part\<close> is a path component of \<open>p\<close>: a stretch of \<open>p\<close> without a separator
  that is bounded on each side by a separator or by an end of \<open>p\<close>.\<close>

definition path_component :: "string \<Rightarrow> string \<Rightarrow> bool" where
  "path_component p part =
     (\<exists>pre suf. p = pre @ part @ suf
        \<and> (pre = [] \<or> is_sep (last pre))
        \<and> (suf = [] \<or> is_sep (hd suf))
        \<and> (\<forall>c \<in> set part. \<not> is_sep c))"

text \<open>Splitting at every character that satisfies \<open>P\<close>, and the pieces it yields.\<close>

fun split_by :: "(char \<Rightarrow> bool) \<Rightarrow> string \<Rightarrow> string list" where
  "split_by P [] = [[]]"
| "split_by P (c # cs) =
     (if P c then [] # split_by P cs
      else (case split_by P cs of [] \<Rightarrow> [[c]] | p # ps \<Rightarrow> (c # p) # ps))"

definition piece :: "(char \<Rightarrow> bool) \<Rightarrow> string \<Rightarrow> string \<Rightarrow> string \<Rightarrow> string \<Rightarrow> bool" where
  "piece P p pre part suf =
     (p = pre @ part @ suf
        \<and> (pre = [] \<or> P (last pre))
        \<and> (suf = [] \<or> P (hd suf))
        \<and> (\<forall>c \<in> set part. \<not> P c))"

text \<open>A text file \<open>notes.txt\<close> whose only byte is 0xFF; no other file can be read.\<close>

definition ff_os :: os where
  "ff_os = void_os
     \<lparr>guess_extension := (\<lambda>p. ''.txt''),
      read_bytes := (\<lambda>p. if p = ''notes.txt'' then Some [0xFF] else None)\<rparr>"

section \<open>MarkdownGenerator\<close>

definition nl :: string where
  "nl = [CHR 0x0A]"

definition fence :: string where
  "fence = replicate 3 (CHR 0x60)"

text \<open>The glyphs of the tree, in UTF-8: the package, the open folder, the corner, the
  tee, the vertical bar and the warning sign (with its variation selector).\<close>

definition glyph_package :: string where
  "glyph_package = [CHR 0xF0, CHR 0x9F, CHR 0x93, CHR 0xA6]"

definition glyph_folder :: string where
  "glyph_folder = [CHR 0xF0, CHR 0x9F, CHR 0x93, CHR 0x82]"

definition glyph_dash :: string where
  "glyph_dash = [CHR 0xE2, CHR 0x94, CHR 0x80]"

definition connector_last :: string where
  "connector_last = [CHR 0xE2, CHR 0x94, CHR 0x94] @ glyph_dash @ glyph_dash @ '' ''"

definition connector_mid :: string where
  "connector_mid = [CHR 0xE2, CHR 0x94, CHR 0x9C] @ glyph_dash @ glyph_dash @ '' ''"

definition glyph_bar :: string where
  "glyph_bar = [CHR 0xE2, CHR 0x94, CHR 0x82]"

definition glyph_warning :: string where
  "glyph_warning = [CHR 0xE2, CHR 0x9A, CHR 0xA0, CHR 0xEF, CHR 0xB8, CHR 0x8F]"

definition extension_map :: "(string \<times> string) list" where
  "extension_map =
     [(''.py'', ''python''), (''.js'', ''javascript''), (''.html'', ''html''),
      (''.css'', ''css''), (''.md'', ''markdown''), (''.json'', ''json''),
      (''.xml'', ''xml''), (''.sql'', ''sql''), (''.sh'', ''bash''),
      (''.cpp'', ''cpp''), (''.c'', ''c''), (''.java'', ''java'')]"

text \<open>\<open>MarkdownGenerator.get_language_identifier\<close>.\<close>

definition get_language_identifier :: "os \<Rightarrow> string \<Rightarrow> string" where
  "get_language_identifier sys filename =
     (let ext = splitext_ext sys filename in
      case map_of extension_map (lower ext) of
        None \<Rightarrow> []
      | Some language \<Rightarrow> language)"

fun entry_name :: "dentry \<Rightarrow> string" where
  "entry_name (FileEntry name) = name"
| "entry_name (DirEntry name entries) = name"
| "entry_name (FailDir name e) = name"

fun entry_is_dir :: "dentry \<Rightarrow> bool" where
  "entry_is_dir (FileEntry name) = False"
| "entry_is_dir (DirEntry name entries) = True"
| "entry_is_dir (FailDir name e) = True"

text \<open>\<open>sorted(os.scandir(dir_path), key=lambda e: (not e.is_dir(), e.name.lower()))\<close>:
  a stable sort, directories first.\<close>

definition sorted_entries :: "dentry list \<Rightarrow> dentry list" where
  "sorted_entries entries =
     sort_key (\<lambda>e. (\<not> entry_is_dir e, lower (entry_name e))) entries"

text \<open>\<open>exclude_patterns and any(p in rel_path for p in exclude_patterns)\<close>: a
  substring test of each pattern on the whole relative path.\<close>

definition tree_excluded :: "string set option \<Rightarrow> string \<Rightarrow> bool" where
  "tree_excluded exclude_patterns rel_path =
     (case exclude_patterns of
        None \<Rightarrow> False
      | Some pats \<Rightarrow> pats \<noteq> {} \<and> (\<exists>p \<in> pats. str_contains rel_path p))"

text \<open>The handlers around the recursive call of \<open>add_directory_to_tree\<close>.\<close>

fun nested_failure :: "string \<Rightarrow> exn option \<Rightarrow> string list" where
  "nested_failure new_prefix None = []"
| "nested_failure new_prefix (Some (PermissionError m)) =
     [new_prefix @ connector_mid @ glyph_warning @ '' Permission denied'']"
| "nested_failure new_prefix (Some (OtherError m)) =
     [new_prefix @ connector_mid @ glyph_warning @ '' Error: '' @ m]"

lemma size_list_insort_key [simp]:
  "size_list f (insort_key k x xs) = Suc (f x + size_list f xs)"
  by (induction xs) auto

lemma size_list_sort_key [simp]: "size_list f (sort_key k xs) = size_list f xs"
  by (induction xs) auto

text \<open>
  The loop of \<open>add_directory_to_tree\<close> over the sorted entries of \<open>dir_path\<close>. The
  result is the lines appended to \<open>tree_lines\<close> and the exception that left the loop,
  if one did. \<open>is_last\<close> is \<open>i == total_entries - 1\<close>: no entry follows.
\<close>

function add_entries ::
  "os \<Rightarrow> string set option \<Rightarrow> string \<Rightarrow> string \<Rightarrow> string \<Rightarrow> dentry list
     \<Rightarrow> string list \<times> exn option" where
  "add_entries sys exclude_patterns root_dir dir_path prefix [] = ([], None)"
| "add_entries sys exclude_patterns root_dir dir_path prefix (entry # rest) =
     (let is_last = (rest = []);
          entry_path = join sys dir_path (entry_name entry) in
      case relpath sys entry_path root_dir of
        Inl e \<Rightarrow> ([], Some (OtherError e))
      | Inr rel_path \<Rightarrow>
          if tree_excluded exclude_patterns rel_path
          then add_entries sys exclude_patterns root_dir dir_path prefix rest
          else
            (let connector = (if is_last then connector_last else connector_mid);
                 new_prefix = prefix @ (if is_last then ''    '' else glyph_bar @ ''   '');
                 here =
                   (case entry of
                      FileEntry name \<Rightarrow> [prefix @ connector @ name]
                    | DirEntry name entries \<Rightarrow>
                        (case add_entries sys exclude_patterns root_dir entry_path new_prefix
                                (sorted_entries entries) of
                           (below, failure) \<Rightarrow>
                             [prefix @ connector @ glyph_folder @ '' '' @ name]
                               @ below @ nested_failure new_prefix failure)
                    | FailDir name e \<Rightarrow>
                        [prefix @ connector @ glyph_folder @ '' '' @ name]
                          @ nested_failure new_prefix (Some e))
             in case add_entries sys exclude_patterns root_dir dir_path prefix rest of
                  (after, failure) \<Rightarrow> (here @ after, failure)))"
  by pat_completeness auto
termination
  by (relation "measure (\<lambda>(sys, pats, root_dir, dir_path, prefix, entries). size_list size entries)")
     (auto simp: sorted_entries_def)

text \<open>Python's \<open>'\n'.join(lines)\<close>.\<close>

fun join_lines :: "string list \<Rightarrow> string" where
  "join_lines [] = []"
| "join_lines [l] = l"
| "join_lines (l # ls) = l @ nl @ join_lines ls"

text \<open>\<open>MarkdownGenerator.generate_directory_tree\<close>.\<close>

definition generate_directory_tree :: "os \<Rightarrow> string \<Rightarrow> string set option \<Rightarrow> string" where
  "generate_directory_tree sys root_dir exclude_patterns =
     (let root_name =
            (if basename sys root_dir \<noteq> [] then basename sys root_dir
             else if basename sys (dirname sys root_dir) \<noteq> []
             then basename sys (dirname sys root_dir)
             else root_dir);
          head = [''# Repository Structure'' @ nl, fence, glyph_package @ '' '' @ root_name];
          (body, failure) =
            (case scandir sys root_dir of
               Inl e \<Rightarrow> ([], Some e)
             | Inr entries \<Rightarrow>
                 add_entries sys exclude_patterns root_dir root_dir [] (sorted_entries entries));
          trouble =
            (case failure of
               None \<Rightarrow> []
             | Some (PermissionError m) \<Rightarrow>
                 [glyph_warning @ '' Error generating complete tree: '' @ m]
             | Some (OtherError m) \<Rightarrow>
                 [glyph_warning @ '' Error generating complete tree: '' @ m])
      in join_lines (head @ body @ trouble @ [fence @ nl]))"

text \<open>
  The search for the repository root in \<open>generate_markdown_to_string\<close>: upwards from
  the common prefix until a directory holds \<open>.git\<close> or is its own parent. \<open>None\<close>
  is a search that never ends.
\<close>

partial_function (option) find_repo_root :: "os \<Rightarrow> string \<Rightarrow> string option" where
  "find_repo_root sys repo_root =
     (if repo_root \<noteq> [] \<and> \<not> path_exists sys (join sys repo_root ''.git'')
      then (let parent = dirname sys repo_root in
            if parent = repo_root then Some repo_root
            else find_repo_root sys parent)
      else Some repo_root)"

text \<open>The common prefix and the repository root of the selected paths; \<open>Inl\<close> is the
  exception of \<open>os.path.commonpath\<close>.\<close>

definition locate_roots :: "os \<Rightarrow> string list \<Rightarrow> (string + string \<times> string) option" where
  "locate_roots sys file_paths =
     (if length file_paths > 0 then
        (case commonpath sys (map (dirname sys) file_paths) of
           Inl e \<Rightarrow> Some (Inl e)
         | Inr common_prefix \<Rightarrow>
             (case find_repo_root sys common_prefix of
                None \<Rightarrow> None
              | Some repo_root \<Rightarrow>
                  if \<not> path_exists sys (join sys repo_root ''.git'')
                  then Some (Inr (common_prefix, common_prefix))
                  else Some (Inr (common_prefix, repo_root))))
      else Some (Inr ([], [])))"

text \<open>What the loop over \<open>file_paths\<close> writes for one path that is not a directory,
  given its relative path.\<close>

definition file_section :: "os \<Rightarrow> string \<Rightarrow> string \<Rightarrow> string" where
  "file_section sys file_path rel_path =
     (let language = get_language_identifier sys file_path in
      ''# '' @ rel_path @ nl @ nl @
      (case read_text sys file_path of
         Inr content \<Rightarrow> fence @ language @ nl @ content @ nl @ fence @ nl @ nl
       | Inl e \<Rightarrow> ''Error reading file - '' @ rel_path @ '': '' @ e @ nl @ nl))"

text \<open>The loop over \<open>file_paths\<close>; \<open>Inl\<close> is the exception of \<open>os.path.relpath\<close>,
  which leaves the loop.\<close>

fun file_sections :: "os \<Rightarrow> string \<Rightarrow> string list \<Rightarrow> string + string" where
  "file_sections sys common_prefix [] = Inr []"
| "file_sections sys common_prefix (file_path # rest) =
     (if isdir sys file_path then file_sections sys common_prefix rest
      else (case relpath sys file_path common_prefix of
              Inl e \<Rightarrow> Inl e
            | Inr rel_path \<Rightarrow>
                (case file_sections sys common_prefix rest of
                   Inl e \<Rightarrow> Inl e
                 | Inr out \<Rightarrow> Inr (file_section sys file_path rel_path @ out))))"

text \<open>
  \<open>MarkdownGenerator.generate_markdown_to_string\<close>. \<open>Inr\<close> is \<open>(True, content)\<close>,
  \<open>Inl\<close> is \<open>(False, error_msg)\<close>; \<open>exclude_patterns\<close> is the attribute that the
  caller sets (\<open>None\<close> when it is not set).
\<close>

definition generate_markdown_to_string ::
  "os \<Rightarrow> string set option \<Rightarrow> string list \<Rightarrow> (string + string) option" where
  "generate_markdown_to_string sys exclude_patterns file_paths =
     (case locate_roots sys file_paths of
        None \<Rightarrow> None
      | Some (Inl e) \<Rightarrow> Some (Inl (''Failed to generate markdown: '' @ e))
      | Some (Inr (common_prefix, repo_root)) \<Rightarrow>
          (let preamble =
                 (if repo_root \<noteq> []
                  then generate_directory_tree sys repo_root exclude_patterns
                         @ nl @ nl @ ''# Selected Files'' @ nl @ nl
                  else [])
           in case file_sections sys common_prefix file_paths of
                Inl e \<Rightarrow> Some (Inl (''Failed to generate markdown: '' @ e))
              | Inr out \<Rightarrow> Some (Inr (preamble @ out))))"

text \<open>\<open>list(dict.fromkeys(selected_files))\<close> in \<open>copy_markdown_to_clipboard\<close>: the
  keys of a dictionary in the order of their first insertion.\<close>

definition dict_fromkeys :: "'a list \<Rightarrow> 'a list" where
  "dict_fromkeys xs = foldl (\<lambda>keys k. if k \<in> set keys then keys else keys @ [k]) [] xs"

text \<open>First occurrence wins, as the specification words it: an element stays where it
  first stands and its later occurrences are dropped.\<close>

fun dedup_first :: "'a list \<Rightarrow> 'a list" where
  "dedup_first [] = []"
| "dedup_first (x # xs) = x # dedup_first (filter (\<lambda>y. y \<noteq> x) xs)"

text \<open>A repository \<open>/r\<close> that holds the one file \<open>a.py\<close>.\<close>

definition one_file_os :: os where
  "one_file_os = void_os
     \<lparr>join := (\<lambda>a b. a @ ''/'' @ b),
      relpath := (\<lambda>p start. if p = ''/r/a.py'' then Inr ''a.py'' else Inr p),
      dirname := (\<lambda>p. if p = ''/r/a.py'' then ''/r'' else p),
      basename := (\<lambda>p. if p = ''/r'' then ''r'' else p),
      commonpath := (\<lambda>ps. Inr ''/r''),
      splitext_ext := (\<lambda>p. if p = ''/r/a.py'' then ''.py'' else []),
      scandir := (\<lambda>p. if p = ''/r'' then Inr [FileEntry ''a.py''] else Inl (OtherError ''No such file or directory'')),
      read_text := (\<lambda>p. if p = ''/r/a.py'' then Inr ''print(1)'' else Inl ''No such file or directory'')\<rparr>"

text \<open>A directory \<open>/r\<close> that holds the files \<open>environment\<close> and \<open>main.py\<close>.\<close>

definition environment_os :: os where
  "environment_os = void_os
     \<lparr>join := (\<lambda>a b. a @ ''/'' @ b),
      relpath := (\<lambda>p start. Inr (drop (length start + 1) p)),
      scandir := (\<lambda>p. if p = ''/r'' then Inr [FileEntry ''main.py'', FileEntry ''environment'']
                        else Inl (OtherError ''No such file or directory''))\<rparr>"

definition section_of :: "os \<Rightarrow> string \<Rightarrow> string \<Rightarrow> string" where
  "section_of sys common_prefix file_path =
     file_section sys file_path
       (case relpath sys file_path common_prefix of Inr rel_path \<Rightarrow> rel_path | Inl e \<Rightarrow> [])"

section \<open>FileHandler.get_files\<close>

text \<open>The extension test of \<open>get_files\<close>: \<open>filename.endswith(ext)\<close>, on the name as
  it is. \<open>None\<close> is the absent list.\<close>

definition get_files_skips :: "string list option \<Rightarrow> string \<Rightarrow> bool" where
  "get_files_skips extensions filename =
     (case extensions of
        None \<Rightarrow> False
      | Some exts \<Rightarrow> exts \<noteq> [] \<and> \<not> list_ex (\<lambda>ext. endswith filename ext) exts)"

text \<open>
  The loop of \<open>get_files\<close> over \<open>os.walk(directory, followlinks=False)\<close>, with the
  visited set and the list of files as state. A directory that is not safe is skipped
  before its \<open>dirs\<close> are pruned, so that \<open>os.walk\<close> enters all of them; \<open>Inl\<close> is the
  exception of \<open>os.path.relpath\<close>.
\<close>

fun get_files_walk ::
  "os \<Rightarrow> string set \<Rightarrow> string \<Rightarrow> string list option \<Rightarrow> wtree
     \<Rightarrow> string set \<times> string list \<Rightarrow> string + string set \<times> string list"
and get_files_dirs ::
  "os \<Rightarrow> string set \<Rightarrow> string \<Rightarrow> string list option \<Rightarrow> bool
     \<Rightarrow> (string \<times> wtree option) list
     \<Rightarrow> string set \<times> string list \<Rightarrow> string + string set \<times> string list"
where
  "get_files_walk sys exclude_patterns directory extensions (WDir root dirs filenames)
       (visited_paths, files) =
     (case is_safe_path sys root visited_paths of
        (False, visited) \<Rightarrow>
          get_files_dirs sys exclude_patterns directory extensions False dirs (visited, files)
      | (True, visited) \<Rightarrow>
          (case relpath sys root directory of
             Inl e \<Rightarrow> Inl e
           | Inr rel \<Rightarrow>
               (let rel_path = (if rel = ''.'' then [] else rel);
                    kept = filter (\<lambda>filename.
                             \<not> should_exclude exclude_patterns (join sys rel_path filename)
                             \<and> \<not> get_files_skips extensions filename) filenames
                in get_files_dirs sys exclude_patterns directory extensions True dirs
                     (visited, files @ map (join sys rel_path) kept))))"
| "get_files_dirs sys exclude_patterns directory extensions pruned [] state = Inr state"
| "get_files_dirs sys exclude_patterns directory extensions pruned ((d, sub) # dirs) state =
     (if pruned \<and> d \<in> exclude_patterns
      then get_files_dirs sys exclude_patterns directory extensions pruned dirs state
      else (case sub of
              None \<Rightarrow> get_files_dirs sys exclude_patterns directory extensions pruned dirs state
            | Some t \<Rightarrow>
                (case get_files_walk sys exclude_patterns directory extensions t state of
                   Inl e \<Rightarrow> Inl e
                 | Inr state' \<Rightarrow>
                     get_files_dirs sys exclude_patterns directory extensions pruned dirs state')))"

text \<open>\<open>FileHandler.get_files\<close>: \<open>Inl\<close> is the exception that it raises.\<close>

definition get_files :: "os \<Rightarrow> string set \<Rightarrow> string \<Rightarrow> string list option \<Rightarrow> string + string list" where
  "get_files sys exclude_patterns directory extensions =
     (if \<not> path_exists sys directory
      then Inl (''Directory '' @ [CHR 0x27] @ directory @ [CHR 0x27] @ '' does not exist'')
      else (case walk sys directory of
              None \<Rightarrow> Inr []
            | Some t \<Rightarrow>
                (case get_files_walk sys exclude_patterns directory extensions t ({}, []) of
                   Inl e \<Rightarrow> Inl e
                 | Inr (visited, files) \<Rightarrow> Inr (sort files))))"

section \<open>The form and the tree view\<close>

text \<open>The entries and check boxes of the window that the program reads.\<close>

record form =
  dir_entry :: string
  filter_entry :: string
  exclude_entry :: string
  exclude_enabled :: bool

text \<open>The white space of \<open>str.strip()\<close> below 0x80: the space, 0x09 to 0x0D and 0x1C
  to 0x1F.\<close>

definition is_space :: "char \<Rightarrow> bool" where
  "is_space c =
     (c \<in> {CHR '' '', CHR 0x09, CHR 0x0A, CHR 0x0B, CHR 0x0C, CHR 0x0D,
            CHR 0x1C, CHR 0x1D, CHR 0x1E, CHR 0x1F})"

text \<open>\<open>s.strip()\<close>, for the white space below 0x80; white space beyond ASCII (such as
  U+00A0) is not stripped here.\<close>

definition strip :: "string \<Rightarrow> string" where
  "strip s = rev (dropWhile is_space (rev (dropWhile is_space s)))"

text \<open>\<open>[ext.strip() for ext in self.filter_entry.get().split(",")]\<close>.\<close>

definition entry_extensions :: "form \<Rightarrow> string list" where
  "entry_extensions frm = map strip (split_chr CHR '','' (filter_entry frm))"

text \<open>\<open>{p.strip() for p in self.exclude_entry.get().split(',') if p.strip()}\<close>.\<close>

definition entry_patterns :: "form \<Rightarrow> string set" where
  "entry_patterns frm =
     set (filter (\<lambda>p. p \<noteq> []) (map strip (split_chr CHR '','' (exclude_entry frm))))"

text \<open>
  \<open>copy_markdown_to_clipboard\<close>, from the list of files it has collected from the
  checked items: the duplicates are removed, an empty list ends with a warning
  (\<open>None\<close>), and the generator is given the exclusion patterns of the form.
\<close>

definition copy_markdown_to_clipboard ::
  "os \<Rightarrow> form \<Rightarrow> string list \<Rightarrow> (string + string) option option" where
  "copy_markdown_to_clipboard sys frm collected =
     (let selected_files = dict_fromkeys collected in
      if selected_files = [] then None
      else Some (generate_markdown_to_string sys
                   (Some (if exclude_enabled frm then entry_patterns frm else {}))
                   selected_files))"

text \<open>The glyphs of the tree view, in UTF-8: the empty box, the checked box, the
  crossed circle, the hooked arrow, the arrow and the warning sign.\<close>

definition box_empty :: string where
  "box_empty = [CHR 0xE2, CHR 0x98, CHR 0x90]"

definition box_checked :: string where
  "box_checked = [CHR 0xE2, CHR 0x98, CHR 0x91]"

definition mark_excluded :: string where
  "mark_excluded = [CHR 0xE2, CHR 0x8A, CHR 0x98]"

definition mark_link :: string where
  "mark_link = [CHR 0xE2, CHR 0x86, CHR 0xAA]"

definition mark_arrow :: string where
  "mark_arrow = [CHR 0xE2, CHR 0x86, CHR 0x92]"

definition mark_warning :: string where
  "mark_warning = [CHR 0xE2, CHR 0x9A, CHR 0xA0]"

text \<open>The one column of an item: a text or a token count.\<close>

datatype cell = Str string | Num nat

text \<open>A call of \<open>self.tree.insert(parent, tk.END, ...)\<close>: the \<open>iid\<close> (\<open>None\<close> when
  the tree view is to generate one), the text, the column and the tags, and whether a
  dummy child is inserted below the new item next.\<close>

record ins =
  ins_iid :: "string option"
  ins_text :: string
  ins_value :: cell
  ins_tags :: "string list"
  ins_dummy :: bool

definition skipped_marker :: ins where
  "skipped_marker =
     \<lparr>ins_iid = None,
      ins_text = mark_warning @ '' Skipped: Potential circular reference'',
      ins_value = Str ''(skipped)'', ins_tags = [''error''], ins_dummy = False\<rparr>"

text \<open>The extension test of \<open>populate_tree\<close>:
  \<open>not extensions or any(item.lower().endswith(ext.lower()) for ext in extensions)\<close>.\<close>

definition populate_matches :: "string list \<Rightarrow> string \<Rightarrow> bool" where
  "populate_matches extensions item =
     (extensions = [] \<or> list_ex (\<lambda>ext. endswith (lower item) (lower ext)) extensions)"

text \<open>
  The body of the first loop of \<open>populate_tree\<close> for one name of the directory: the
  items it inserts, or \<open>None\<close> when \<open>os.path.relpath\<close> raises, which leaves
  \<open>populate_tree\<close>. \<open>realpath\<close> raising is the \<open>OSError\<close> that the loop handles.
\<close>

definition folder_nodes :: "os \<Rightarrow> form \<Rightarrow> string set \<Rightarrow> string \<Rightarrow> string \<Rightarrow> ins list option" where
  "folder_nodes sys frm exclude_patterns path item =
     (let item_path = normpath sys (join sys path item) in
      case relpath sys item_path (dir_entry frm) of
        Inl e \<Rightarrow> None
      | Inr rel_path \<Rightarrow>
          if islink sys item_path then
            (case realpath sys item_path of
               None \<Rightarrow>
                 Some [\<lparr>ins_iid = None,
                        ins_text = mark_warning @ '' '' @ item @ '': '' @ realpath_error sys item_path,
                        ins_value = Str ''(error)'', ins_tags = [''error''], ins_dummy = False\<rparr>]
             | Some target_path \<Rightarrow>
                 if isdir sys item_path then
                   Some [\<lparr>ins_iid = Some item_path,
                          ins_text = mark_link @ '' '' @ item @ '' '' @ mark_arrow @ '' '' @ target_path,
                          ins_value = Str ''(symlink)'', ins_tags = [''folder'', ''symlink''],
                          ins_dummy = False\<rparr>]
                 else Some [])
          else if isdir sys item_path then
            (if exclude_enabled frm \<and> should_exclude exclude_patterns rel_path then
               Some [\<lparr>ins_iid = Some item_path, ins_text = mark_excluded @ '' '' @ item,
                      ins_value = Str ''(excluded)'', ins_tags = [''folder'', ''excluded''],
                      ins_dummy = True\<rparr>]
             else
               Some [\<lparr>ins_iid = Some item_path, ins_text = box_empty @ '' '' @ item,
                      ins_value = Str [], ins_tags = [''folder''], ins_dummy = True\<rparr>])
          else Some [])"

text \<open>The body of the second loop of \<open>populate_tree\<close> for one name.\<close>

definition file_nodes ::
  "os \<Rightarrow> form \<Rightarrow> string set \<Rightarrow> string \<Rightarrow> string list \<Rightarrow> string \<Rightarrow> ins list option" where
  "file_nodes sys frm exclude_patterns path extensions item =
     (let item_path = normpath sys (join sys path item) in
      case relpath sys item_path (dir_entry frm) of
        Inl e \<Rightarrow> None
      | Inr rel_path \<Rightarrow>
          if isfile sys item_path then
            (if exclude_enabled frm \<and> should_exclude exclude_patterns rel_path then
               Some [\<lparr>ins_iid = Some item_path, ins_text = mark_excluded @ '' '' @ item,
                      ins_value = Str ''(excluded)'', ins_tags = [''file'', ''excluded''],
                      ins_dummy = False\<rparr>]
             else if populate_matches extensions item then
               (case count_tokens_in_file sys item_path of
                  None \<Rightarrow>
                    Some [\<lparr>ins_iid = Some item_path, ins_text = box_empty @ '' '' @ item,
                           ins_value = Str ''(error)'', ins_tags = [''file'', ''error''],
                           ins_dummy = False\<rparr>]
                | Some token_count \<Rightarrow>
                    if token_count = 0 \<and> is_binary_file sys item_path then
                      Some [\<lparr>ins_iid = Some item_path, ins_text = box_empty @ '' '' @ item,
                             ins_value = Str ''(binary)'', ins_tags = [''file'', ''binary''],
                             ins_dummy = False\<rparr>]
                    else
                      Some [\<lparr>ins_iid = Some item_path, ins_text = box_empty @ '' '' @ item,
                             ins_value = Num token_count, ins_tags = [''file''],
                             ins_dummy = False\<rparr>])
             else Some [])
          else Some [])"

text \<open>A loop over names that an exception leaves: the items inserted so far, and
  whether the loop came to its end.\<close>

fun loop_nodes :: "(string \<Rightarrow> ins list option) \<Rightarrow> string list \<Rightarrow> ins list \<times> bool" where
  "loop_nodes body [] = ([], True)"
| "loop_nodes body (item # items) =
     (case body item of
        None \<Rightarrow> ([], False)
      | Some nodes \<Rightarrow>
          (case loop_nodes body items of (later, finished) \<Rightarrow> (nodes @ later, finished)))"

text \<open>The two loops of \<open>populate_tree\<close> over \<open>sorted(items)\<close>: folders first, then files.\<close>

definition listing_nodes ::
  "os \<Rightarrow> form \<Rightarrow> string set \<Rightarrow> string \<Rightarrow> string list \<Rightarrow> string list \<Rightarrow> ins list" where
  "listing_nodes sys frm exclude_patterns path extensions items =
     (case loop_nodes (folder_nodes sys frm exclude_patterns path) (sort items) of
        (folders, False) \<Rightarrow> folders
      | (folders, True) \<Rightarrow>
          folders @ fst (loop_nodes (file_nodes sys frm exclude_patterns path extensions) (sort items)))"

text \<open>
  \<open>populate_tree\<close>, as the sequence of items it inserts below \<open>parent\<close> and the visited
  set it leaves. \<open>os.listdir\<close> raising leaves \<open>populate_tree\<close> with nothing inserted.
\<close>

definition populate_nodes ::
  "os \<Rightarrow> form \<Rightarrow> string set \<Rightarrow> string set \<Rightarrow> string \<Rightarrow> string list \<Rightarrow> string set \<times> ins list" where
  "populate_nodes sys frm exclude_patterns visited_paths path0 extensions =
     (let path = normpath sys path0 in
      case is_safe_path sys path visited_paths of
        (False, visited) \<Rightarrow> (visited, [skipped_marker])
      | (True, visited) \<Rightarrow>
          (case listdir sys path of
             None \<Rightarrow> (visited, [])
           | Some items \<Rightarrow> (visited, listing_nodes sys frm exclude_patterns path extensions items)))"

text \<open>A directory \<open>/r\<close> that holds the one file \<open>A.PY\<close>.\<close>

definition upper_os :: os where
  "upper_os = void_os
     \<lparr>relpath := (\<lambda>p start. if p = start then Inr ''.'' else Inr p),
      path_exists := (\<lambda>p. p = ''/r''),
      walk := (\<lambda>p. if p = ''/r'' then Some (WDir ''/r'' [] [''A.PY'']) else None)\<rparr>"

text \<open>A directory \<open>/r\<close> without links that holds the folder \<open>lib\<close> and the file
  \<open>a.py\<close>, and the form that browses it.\<close>

definition plain_os :: os where
  "plain_os = void_os
     \<lparr>join := (\<lambda>a b. a @ ''/'' @ b),
      relpath := (\<lambda>p start. Inr (drop (length start + 1) p)),
      isdir := (\<lambda>p. p = ''/r'' \<or> p = ''/r/lib''),
      isfile := (\<lambda>p. p = ''/r/a.py''),
      listdir := (\<lambda>p. if p = ''/r'' then Some [''lib'', ''a.py''] else None),
      read_bytes := (\<lambda>p. if p = ''/r/a.py'' then Some [0x78] else None),
      read_text := (\<lambda>p. if p = ''/r/a.py'' then Inr ''x'' else Inl ''No such file or directory'')\<rparr>"

definition plain_form :: form where
  "plain_form = \<lparr>dir_entry = ''/r'', filter_entry = ''.py,.js,.md'',
                  exclude_entry = ''env'', exclude_enabled = True\<rparr>"

fun nodes_of :: "ins list option \<Rightarrow> ins list" where
  "nodes_of None = []"
| "nodes_of (Some nodes) = nodes"

section \<open>MainApplication: the state\<close>

text \<open>
  The identifier of an item of the tree view: the path that \<open>populate_tree\<close> passes as
  \<open>iid\<close>, or the name that the tree view generates when no \<open>iid\<close> is passed. The
  tree view never generates a name that is in use, and the paths are built from the
  directory that the user has picked; the two kinds are kept apart.
\<close>

datatype iid = PathId string | AutoId nat

record item =
  caption :: string
  cellv :: cell
  tags :: "string list"
  opened :: bool
  kids :: "iid list"

text \<open>The messages that a worker puts on \<open>token_queue\<close>.\<close>

datatype msg =
    Progress string nat
  | Error string string
  | Done string nat
  | Cancelled

text \<open>
  Where a worker stands in \<open>token_calculation_thread\<close>: at the head of the loop over
  \<open>os.walk\<close> (with what the walk has yet to yield and the total), at the head of the
  loop over the names of a directory, in the body of that loop after the check of
  \<open>cancel_operation\<close>, or at its end.
\<close>

datatype wstate =
    AtDir "(string \<times> string list) list" nat
  | AtFile string "string list" "(string \<times> string list) list" nat
  | InFile string string "string list" "(string \<times> string list) list" nat
  | Finished

record worker =
  directory_path :: string
  pos :: wstate

text \<open>
  The attributes of \<open>MainApplication\<close> that the operations read and write, with the
  file handler's and the tree view's. \<open>tree\<close> holds the items, \<open>root_kids\<close> the
  children of the root; \<open>pending_calculations\<close> is \<open>None\<close> as long as the attribute
  (and \<open>calculation_results\<close> with it) has not been set. \<open>self_form\<close> is the entries
  and the check box of the window, \<open>self_exclude_patterns\<close> the attribute
  \<open>exclude_patterns\<close> of the file handler.
\<close>

record app =
  self_form :: form
  self_exclude_patterns :: "string set"
  visited_paths :: "string set"
  tree :: "iid \<rightharpoonup> item"
  root_kids :: "iid list"
  next_auto :: nat
  checked_items :: "iid set"
  calculated_directories :: "string set"
  token_queue :: "msg list"
  cancel_operation :: bool
  threads :: "worker list"
  pending_calculations :: "nat option"
  calculation_results :: "string \<rightharpoonup> nat"

definition iid_path :: "os \<Rightarrow> iid \<Rightarrow> string" where
  "iid_path sys i = (case i of PathId p \<Rightarrow> p | AutoId n \<Rightarrow> generated_iid sys n)"

definition has_tag :: "app \<Rightarrow> iid \<Rightarrow> string \<Rightarrow> bool" where
  "has_tag s i t = (case tree s i of None \<Rightarrow> False | Some it \<Rightarrow> t \<in> set (tags it))"

definition children :: "app \<Rightarrow> iid \<Rightarrow> iid list" where
  "children s i = (case tree s i of None \<Rightarrow> [] | Some it \<Rightarrow> kids it)"

section \<open>The tree view\<close>

text \<open>Appending a new item to the children of \<open>parent\<close> (\<open>None\<close> is the root).\<close>

definition attach :: "iid option \<Rightarrow> iid \<Rightarrow> app \<Rightarrow> app" where
  "attach parent new s =
     (case parent of
        None \<Rightarrow> s\<lparr>root_kids := root_kids s @ [new]\<rparr>
      | Some q \<Rightarrow>
          s\<lparr>tree := (\<lambda>j. if j = q then map_option (\<lambda>it. it\<lparr>kids := kids it @ [new]\<rparr>) (tree s q)
                         else tree s j)\<rparr>)"

text \<open>
  \<open>tree.insert(parent, tk.END, iid=..., text=..., values=..., tags=...)\<close> without the
  dummy: \<open>None\<close> is the \<open>TclError\<close> for a parent that is not in the tree or an \<open>iid\<close>
  that is.
\<close>

definition tk_insert1 :: "iid option \<Rightarrow> ins \<Rightarrow> app \<Rightarrow> (iid \<times> app) option" where
  "tk_insert1 parent spec s =
     (let new = (case ins_iid spec of Some p \<Rightarrow> PathId p | None \<Rightarrow> AutoId (next_auto s)) in
      if (case parent of None \<Rightarrow> False | Some q \<Rightarrow> tree s q = None) \<or> tree s new \<noteq> None
      then None
      else Some (new,
        attach parent new
          (s\<lparr>tree := (tree s)(new \<mapsto>
                 \<lparr>caption = ins_text spec, cellv = ins_value spec, tags = ins_tags spec,
                  opened = False, kids = []\<rparr>),
             next_auto := (case ins_iid spec of Some p \<Rightarrow> next_auto s
                                              | None \<Rightarrow> Suc (next_auto s))\<rparr>)))"

definition dummy_child :: ins where
  "dummy_child = \<lparr>ins_iid = None, ins_text = [], ins_value = Str [], ins_tags = [''dummy''],
                   ins_dummy = False\<rparr>"

text \<open>An insertion of \<open>populate_tree\<close>, with the dummy child that follows the insertion
  of a folder.\<close>

definition tk_insert :: "iid option \<Rightarrow> ins \<Rightarrow> app \<Rightarrow> app option" where
  "tk_insert parent spec s =
     (case tk_insert1 parent spec s of
        None \<Rightarrow> None
      | Some (new, s') \<Rightarrow>
          if ins_dummy spec then map_option snd (tk_insert1 (Some new) dummy_child s')
          else Some s')"

text \<open>The insertions of one call of \<open>populate_tree\<close>, up to the first that raises.\<close>

fun insert_all :: "iid option \<Rightarrow> ins list \<Rightarrow> app \<Rightarrow> app" where
  "insert_all parent [] s = s"
| "insert_all parent (spec # specs) s =
     (case tk_insert parent spec s of
        None \<Rightarrow> s
      | Some s' \<Rightarrow> insert_all parent specs s')"

text \<open>\<open>tree.delete(i)\<close>, for an item without children.\<close>

definition tk_delete :: "iid \<Rightarrow> app \<Rightarrow> app" where
  "tk_delete i s =
     s\<lparr>tree := (\<lambda>j. if j = i then None
                     else map_option (\<lambda>it. it\<lparr>kids := removeAll i (kids it)\<rparr>) (tree s j)),
       root_kids := removeAll i (root_kids s)\<rparr>"

definition set_text :: "iid \<Rightarrow> string \<Rightarrow> app \<Rightarrow> app" where
  "set_text i t s = s\<lparr>tree := (\<lambda>j. if j = i then map_option (\<lambda>it. it\<lparr>caption := t\<rparr>) (tree s i)
                                   else tree s j)\<rparr>"

definition set_opened :: "iid \<Rightarrow> bool \<Rightarrow> app \<Rightarrow> app" where
  "set_opened i b s = s\<lparr>tree := (\<lambda>j. if j = i then map_option (\<lambda>it. it\<lparr>opened := b\<rparr>) (tree s i)
                                     else tree s j)\<rparr>"

text \<open>A continuation byte of UTF-8, and \<open>text[2:]\<close>: the text without its first two
  code points.\<close>

definition is_continuation :: "char \<Rightarrow> bool" where
  "is_continuation c = (CHR 0x80 \<le> c \<and> c < CHR 0xC0)"

fun drop_code_point :: "string \<Rightarrow> string" where
  "drop_code_point [] = []"
| "drop_code_point (c # cs) = dropWhile is_continuation cs"

definition slice2 :: "string \<Rightarrow> string" where
  "slice2 t = drop_code_point (drop_code_point t)"

section \<open>MainApplication: browsing\<close>

text \<open>\<open>populate_tree(parent, path, extensions)\<close>: every exception is caught inside.\<close>

definition populate_tree :: "os \<Rightarrow> iid option \<Rightarrow> string \<Rightarrow> string list \<Rightarrow> app \<Rightarrow> app" where
  "populate_tree sys parent path extensions s =
     (case populate_nodes sys (self_form s) (self_exclude_patterns s) (visited_paths s) path extensions of
        (visited, nodes) \<Rightarrow> insert_all parent nodes (s\<lparr>visited_paths := visited\<rparr>))"

text \<open>
  The block that \<open>on_folder_open\<close>, \<open>handle_click\<close>, \<open>check_item_and_children\<close> and
  \<open>expand_all_folders\<close> share: a folder with no child or with one child that is a dummy
  loses its dummies and is populated.
\<close>

definition populate_if_needed :: "os \<Rightarrow> iid \<Rightarrow> app \<Rightarrow> app" where
  "populate_if_needed sys item s =
     (let cs = children s item in
      if cs = [] \<or> (length cs = 1 \<and> has_tag s (hd cs) ''dummy'')
      then populate_tree sys (Some item) (iid_path sys item) (entry_extensions (self_form s))
             (fold (\<lambda>child s'. if has_tag s' child ''dummy'' then tk_delete child s' else s') cs s)
      else s)"

text \<open>\<open>update_total_tokens()\<close> without a total: the checked items that are no longer
  in the tree are dropped from \<open>checked_items\<close>; the rest is the label.\<close>

definition update_total_tokens :: "app \<Rightarrow> app" where
  "update_total_tokens s = s\<lparr>checked_items := {i \<in> checked_items s. tree s i \<noteq> None}\<rparr>"

section \<open>MainApplication: token aggregation\<close>

text \<open>What \<open>os.walk(directory_path)\<close> yields, top down: the directory and its names
  that are not directories.\<close>

fun walk_list :: "wtree \<Rightarrow> (string \<times> string list) list"
and walk_dirs :: "(string \<times> wtree option) list \<Rightarrow> (string \<times> string list) list" where
  "walk_list (WDir root dirs filenames) = (root, filenames) # walk_dirs dirs"
| "walk_dirs [] = []"
| "walk_dirs ((d, None) # dirs) = walk_dirs dirs"
| "walk_dirs ((d, Some t) # dirs) = walk_list t @ walk_dirs dirs"

definition walk_of :: "os \<Rightarrow> string \<Rightarrow> (string \<times> string list) list" where
  "walk_of sys directory = (case walk sys directory of None \<Rightarrow> [] | Some t \<Rightarrow> walk_list t)"

text \<open>\<open>calculate_tokens_for_directory\<close>: a new worker at the start of its walk, with a
  total of 0.\<close>

definition calculate_tokens_for_directory :: "os \<Rightarrow> string \<Rightarrow> app \<Rightarrow> app" where
  "calculate_tokens_for_directory sys directory s =
     s\<lparr>threads := threads s @ [\<lparr>directory_path = directory, pos = AtDir (walk_of sys directory) 0\<rparr>]\<rparr>"

text \<open>\<open>calculate_directory_tokens\<close>: nothing for a directory that is memoized.\<close>

definition calculate_directory_tokens :: "os \<Rightarrow> string \<Rightarrow> app \<Rightarrow> app" where
  "calculate_directory_tokens sys directory s =
     (if directory \<in> calculated_directories s then s
      else calculate_tokens_for_directory sys directory s)"

definition cancel_current_operation :: "app \<Rightarrow> app" where
  "cancel_current_operation s = s\<lparr>cancel_operation := True\<rparr>"

definition cleanup_calculation_ui :: "app \<Rightarrow> app" where
  "cleanup_calculation_ui s = s\<lparr>cancel_operation := False\<rparr>"

text \<open>The text of the \<open>IOError\<close> of \<open>count_tokens_in_file\<close>; what the tokenizer says
  when it is the tokenizer that fails is left out.\<close>

definition count_tokens_error :: "os \<Rightarrow> string \<Rightarrow> string" where
  "count_tokens_error sys filepath =
     ''Failed to count tokens in file '' @ [CHR 0x27] @ filepath @ [CHR 0x27] @ '': ''
       @ (case read_text sys filepath of Inl e \<Rightarrow> e | Inr content \<Rightarrow> [])"

text \<open>
  The body of the loop over the names for one file, after the check of
  \<open>cancel_operation\<close>: the messages put on the queue and the new total.
\<close>

definition count_one_file :: "os \<Rightarrow> app \<Rightarrow> string \<Rightarrow> string \<Rightarrow> nat \<Rightarrow> msg list \<times> nat" where
  "count_one_file sys s root filename total_tokens =
     (let item_path = join sys root filename in
      if is_binary_file sys item_path then ([], total_tokens)
      else (case relpath sys item_path (dir_entry (self_form s)) of
              Inl e \<Rightarrow> ([Error item_path e], total_tokens)
            | Inr rel_path \<Rightarrow>
                if exclude_enabled (self_form s) \<and> should_exclude (self_exclude_patterns s) rel_path
                then ([], total_tokens)
                else
                  (let extensions = entry_extensions (self_form s) in
                   if extensions \<noteq> []
                      \<and> \<not> list_ex (\<lambda>ext. endswith (lower item_path) (lower ext)) extensions
                   then ([], total_tokens)
                   else (case count_tokens_in_file sys item_path of
                           None \<Rightarrow> ([Error item_path (count_tokens_error sys item_path)], total_tokens)
                         | Some tokens \<Rightarrow>
                             ([Progress item_path tokens], total_tokens + tokens)))))"

text \<open>
  One step of \<open>token_calculation_thread\<close> for the directory \<open>d\<close>, in the state \<open>s\<close> of
  the application that it reads: the messages it puts on the queue and where it stands
  then. The flag \<open>cancel_operation\<close> is read at the head of each of the two loops,
  when the loop has an element to go on with.
\<close>

fun thread_step :: "os \<Rightarrow> app \<Rightarrow> string \<Rightarrow> wstate \<Rightarrow> msg list \<times> wstate" where
  "thread_step sys s d (AtDir [] total_tokens) = ([Done d total_tokens], Finished)"
| "thread_step sys s d (AtDir ((root, filenames) # rest) total_tokens) =
     (if cancel_operation s then ([Cancelled], Finished)
      else ([], AtFile root filenames rest total_tokens))"
| "thread_step sys s d (AtFile root [] rest total_tokens) = ([], AtDir rest total_tokens)"
| "thread_step sys s d (AtFile root (filename # filenames) rest total_tokens) =
     (if cancel_operation s then ([Cancelled], Finished)
      else ([], InFile root filename filenames rest total_tokens))"
| "thread_step sys s d (InFile root filename filenames rest total_tokens) =
     (case count_one_file sys s root filename total_tokens of
        (msgs, total_tokens') \<Rightarrow> (msgs, AtFile root filenames rest total_tokens'))"
| "thread_step sys s d Finished = ([], Finished)"

text \<open>The worker number \<open>k\<close> makes one step.\<close>

definition worker_step :: "os \<Rightarrow> nat \<Rightarrow> app \<Rightarrow> app" where
  "worker_step sys k s =
     (if k < length (threads s) then
        (let w = threads s ! k in
         case thread_step sys s (directory_path w) (pos w) of
           (msgs, pos') \<Rightarrow>
             s\<lparr>token_queue := token_queue s @ msgs,
               threads := (threads s)[k := w\<lparr>pos := pos'\<rparr>]\<rparr>)
      else s)"

text \<open>\<open>update_item_tokens\<close> raises an \<open>IndexError\<close> when the one column of a child of
  the root is equal to the path; it changes nothing when none is.\<close>

definition update_item_tokens_raises :: "app \<Rightarrow> string \<Rightarrow> bool" where
  "update_item_tokens_raises s item_path =
     list_ex (\<lambda>i. case tree s i of None \<Rightarrow> False | Some it \<Rightarrow> cellv it = Str item_path)
       (root_kids s)"

text \<open>
  What \<open>check_token_queue\<close> does with one message. \<open>False\<close> is an exception, which
  ends the draining of the queue after \<open>cleanup_calculation_ui\<close>.
\<close>

fun process_message :: "msg \<Rightarrow> app \<Rightarrow> bool \<times> app" where
  "process_message (Progress item_path tokens) s =
     (if update_item_tokens_raises s item_path then (False, cleanup_calculation_ui s)
      else (True, s))"
| "process_message (Error path error_msg) s =
     (case pending_calculations s of
        None \<Rightarrow> (True, s)
      | Some pending \<Rightarrow>
          (True, if pending > 0 then s\<lparr>pending_calculations := Some (pending - 1)\<rparr> else s))"
| "process_message (Done directory total_tokens) s =
     (let s1 = s\<lparr>calculated_directories := insert directory (calculated_directories s)\<rparr> in
      case pending_calculations s1 of
        None \<Rightarrow> (True, cleanup_calculation_ui s1)
      | Some pending \<Rightarrow>
          (let s2 = s1\<lparr>calculation_results := (calculation_results s1)(directory \<mapsto> total_tokens)\<rparr>;
               s3 = (if pending > 0 then s2\<lparr>pending_calculations := Some (pending - 1)\<rparr> else s2)
           in (True, if pending_calculations s3 = Some 0 then cleanup_calculation_ui s3 else s3)))"
| "process_message Cancelled s =
     (True, cleanup_calculation_ui
              (case pending_calculations s of
                 None \<Rightarrow> s
               | Some pending \<Rightarrow> s\<lparr>pending_calculations := Some 0\<rparr>))"

text \<open>The loop of \<open>check_token_queue\<close> over the messages that are on the queue.\<close>

fun drain :: "msg list \<Rightarrow> app \<Rightarrow> bool \<times> app" where
  "drain [] s = (True, s)"
| "drain (m # ms) s =
     (case process_message m (s\<lparr>token_queue := ms\<rparr>) of
        (False, s') \<Rightarrow> (False, s')
      | (True, s') \<Rightarrow> drain ms s')"

text \<open>\<open>check_token_queue\<close>: when the queue is empty and no worker is alive, the
  calculation is cleaned up.\<close>

definition check_token_queue :: "app \<Rightarrow> app" where
  "check_token_queue s =
     (case drain (token_queue s) s of
        (False, s') \<Rightarrow> s'
      | (True, s') \<Rightarrow>
          if list_all (\<lambda>w. pos w = Finished) (threads s') then cleanup_calculation_ui s' else s')"

section \<open>MainApplication: selection\<close>

text \<open>
  A loop over items that an exception leaves: \<open>False\<close> says that an exception is on
  its way out of the handler, with the state as it was left.
\<close>

fun for_each :: "(iid \<Rightarrow> app \<Rightarrow> bool \<times> app) \<Rightarrow> iid list \<Rightarrow> app \<Rightarrow> bool \<times> app" where
  "for_each body [] s = (True, s)"
| "for_each body (i # is) s =
     (case body i s of
        (False, s') \<Rightarrow> (False, s')
      | (True, s') \<Rightarrow> for_each body is s')"

text \<open>
  \<open>check_item_and_children(item, skip_calculation)\<close>. The first argument bounds the
  depth of the recursion, as the interpreter does: at depth 0 the call raises. An
  item that is not in the tree raises too.
\<close>

fun check_item_and_children :: "os \<Rightarrow> nat \<Rightarrow> bool \<Rightarrow> iid \<Rightarrow> app \<Rightarrow> bool \<times> app" where
  "check_item_and_children sys 0 skip_calculation item s = (False, s)"
| "check_item_and_children sys (Suc depth) skip_calculation item s =
     (case tree s item of
        None \<Rightarrow> (False, s)
      | Some it \<Rightarrow>
          if ''excluded'' \<in> set (tags it) then (True, s)
          else
            (let s1 = set_text item (box_checked @ '' '' @ slice2 (caption it)) s;
                 s2 = s1\<lparr>checked_items := insert item (checked_items s1)\<rparr>;
                 s3 = (if ''folder'' \<in> set (tags it) then
                         (let s4 = populate_if_needed sys item (set_opened item True s2) in
                          if \<not> skip_calculation
                             \<and> iid_path sys item \<notin> calculated_directories s4
                          then calculate_tokens_for_directory sys (iid_path sys item) s4
                          else s4)
                       else s2)
             in for_each (\<lambda>child s'. check_item_and_children sys depth skip_calculation child s')
                  (children s3 item) s3))"

text \<open>\<open>uncheck_item_and_children(item)\<close>.\<close>

fun uncheck_item_and_children :: "nat \<Rightarrow> iid \<Rightarrow> app \<Rightarrow> bool \<times> app" where
  "uncheck_item_and_children 0 item s = (False, s)"
| "uncheck_item_and_children (Suc depth) item s =
     (case tree s item of
        None \<Rightarrow> (False, s)
      | Some it \<Rightarrow>
          if ''excluded'' \<in> set (tags it) then (True, s)
          else
            (let s1 = set_text item (box_empty @ '' '' @ slice2 (caption it)) s;
                 s2 = s1\<lparr>checked_items := checked_items s1 - {item}\<rparr>
             in for_each (\<lambda>child s'. uncheck_item_and_children depth child s')
                  (children s2 item) s2))"

text \<open>
  \<open>handle_click\<close>, for the item under the pointer (\<open>None\<close> when there is none). A
  click on an excluded item returns at once; an exception leaves the handler before
  \<open>update_total_tokens\<close>.
\<close>

definition handle_click :: "os \<Rightarrow> nat \<Rightarrow> iid option \<Rightarrow> app \<Rightarrow> app" where
  "handle_click sys depth target s =
     (case target of
        None \<Rightarrow> update_total_tokens s
      | Some item \<Rightarrow>
          (case tree s item of
             None \<Rightarrow> s
           | Some it \<Rightarrow>
               if ''excluded'' \<in> set (tags it) then s
               else if startswith (caption it) box_empty then
                 (case check_item_and_children sys depth True item s of
                    (False, s') \<Rightarrow> s'
                  | (True, s') \<Rightarrow> update_total_tokens s')
               else if startswith (caption it) box_checked then
                 (case uncheck_item_and_children depth item s of
                    (False, s') \<Rightarrow> s'
                  | (True, s') \<Rightarrow> update_total_tokens s')
               else if ''folder'' \<in> set (tags it) then
                 (let s1 = populate_if_needed sys item s;
                      s2 = (if iid_path sys item \<notin> calculated_directories s1
                            then calculate_tokens_for_directory sys (iid_path sys item) s1
                            else s1)
                  in update_total_tokens s2)
               else update_total_tokens s))"

text \<open>\<open>on_folder_open\<close>, for the item in focus.\<close>

definition on_folder_open :: "os \<Rightarrow> iid \<Rightarrow> app \<Rightarrow> app" where
  "on_folder_open sys item s =
     (case tree s item of
        None \<Rightarrow> s
      | Some it \<Rightarrow> populate_if_needed sys item s)"

text \<open>\<open>on_folder_close\<close>, for the item in focus.\<close>

definition on_folder_close :: "nat \<Rightarrow> iid \<Rightarrow> app \<Rightarrow> app" where
  "on_folder_close depth item s =
     (case tree s item of
        None \<Rightarrow> s
      | Some it \<Rightarrow>
          if \<not> startswith (caption it) box_checked then
            (case uncheck_item_and_children depth item s of
               (False, s') \<Rightarrow> s'
             | (True, s') \<Rightarrow> update_total_tokens s')
          else update_total_tokens s)"

text \<open>
  \<open>expand_and_select_children\<close> of \<open>expand_all_folders\<close>, with the list
  \<open>folders_to_calculate\<close> beside the state.
\<close>

fun for_each_acc ::
  "(iid \<Rightarrow> app \<times> string list \<Rightarrow> bool \<times> app \<times> string list) \<Rightarrow> iid list
     \<Rightarrow> app \<times> string list \<Rightarrow> bool \<times> app \<times> string list" where
  "for_each_acc body [] sa = (True, sa)"
| "for_each_acc body (i # is) sa =
     (case body i sa of
        (False, sa') \<Rightarrow> (False, sa')
      | (True, sa') \<Rightarrow> for_each_acc body is sa')"

fun expand_and_select_children ::
  "os \<Rightarrow> nat \<Rightarrow> iid \<Rightarrow> app \<times> string list \<Rightarrow> bool \<times> app \<times> string list" where
  "expand_and_select_children sys 0 item (s, folders_to_calculate) =
     (False, s, folders_to_calculate)"
| "expand_and_select_children sys (Suc depth) item (s, folders_to_calculate) =
     (case tree s item of
        None \<Rightarrow> (False, s, folders_to_calculate)
      | Some it \<Rightarrow>
          if ''excluded'' \<in> set (tags it) then (True, s, folders_to_calculate)
          else
            (case check_item_and_children sys depth True item s of
               (False, s1) \<Rightarrow> (False, s1, folders_to_calculate)
             | (True, s1) \<Rightarrow>
                 if ''folder'' \<in> set (tags it) then
                   (let s2 = populate_if_needed sys item (set_opened item True s1);
                        folders = (if iid_path sys item \<notin> calculated_directories s2
                                   then folders_to_calculate @ [iid_path sys item]
                                   else folders_to_calculate)
                    in for_each_acc
                         (\<lambda>child sa. expand_and_select_children sys depth child sa)
                         (children s2 item) (s2, folders))
                 else (True, s1, folders_to_calculate)))"

text \<open>The loop of \<open>expand_all_folders\<close> that starts the workers; it ends when
  \<open>cancel_operation\<close> is set.\<close>

fun start_calculations :: "os \<Rightarrow> string list \<Rightarrow> app \<Rightarrow> app" where
  "start_calculations sys [] s = s"
| "start_calculations sys (folder # folders) s =
     (if cancel_operation s then s
      else start_calculations sys folders (calculate_tokens_for_directory sys folder s))"

text \<open>\<open>expand_all_folders\<close>.\<close>

definition expand_all_folders :: "os \<Rightarrow> nat \<Rightarrow> app \<Rightarrow> app" where
  "expand_all_folders sys depth s =
     (if dir_entry (self_form s) = [] then s
      else
        (let s1 = s\<lparr>checked_items := {}, pending_calculations := Some 0,
                    calculation_results := Map.empty, cancel_operation := False\<rparr> in
         case for_each_acc (\<lambda>item sa. expand_and_select_children sys depth item sa)
                (root_kids s1) (s1, []) of
           (False, s2, folders) \<Rightarrow> s2
         | (True, s2, folders) \<Rightarrow>
             if folders \<noteq> []
             then start_calculations sys folders
                    (s2\<lparr>pending_calculations := Some (length folders)\<rparr>)
             else update_total_tokens s2))"

text \<open>\<open>collapse_and_deselect_folder_recursive\<close> of \<open>collapse_all_folders\<close>.\<close>

fun collapse_and_deselect :: "nat \<Rightarrow> iid \<Rightarrow> app \<Rightarrow> bool \<times> app" where
  "collapse_and_deselect 0 item s = (False, s)"
| "collapse_and_deselect (Suc depth) item s =
     (case tree s item of
        None \<Rightarrow> (False, s)
      | Some it \<Rightarrow>
          (let s1 = (if ''excluded'' \<notin> set (tags it) \<and> startswith (caption it) box_checked
                     then set_text item (box_empty @ '' '' @ slice2 (caption it)) s
                     else s)
           in if ''folder'' \<in> set (tags it) then
                (case for_each (\<lambda>child s'. collapse_and_deselect depth child s')
                        (children s1 item) s1 of
                   (False, s2) \<Rightarrow> (False, s2)
                 | (True, s2) \<Rightarrow> (True, set_opened item False s2))
              else (True, s1)))"

text \<open>\<open>collapse_all_folders\<close>.\<close>

definition collapse_all_folders :: "nat \<Rightarrow> app \<Rightarrow> app" where
  "collapse_all_folders depth s =
     (if dir_entry (self_form s) = [] then s
      else
        (let s1 = s\<lparr>checked_items := {}\<rparr> in
         case for_each (\<lambda>item s'. collapse_and_deselect depth item s') (root_kids s1) s1 of
           (False, s2) \<Rightarrow> s2
         | (True, s2) \<Rightarrow> update_total_tokens s2))"

text \<open>\<open>refresh_files\<close>: the tree and the checked items are cleared and the root is
  populated again, in a new traversal session.\<close>

definition refresh_files :: "os \<Rightarrow> app \<Rightarrow> app" where
  "refresh_files sys s =
     (if dir_entry (self_form s) = [] then s
      else
        update_total_tokens
          (populate_tree sys None (dir_entry (self_form s)) (entry_extensions (self_form s))
             (s\<lparr>tree := Map.empty, root_kids := [], checked_items := {},
                visited_paths := {}\<rparr>)))"

text \<open>\<open>browse_directory\<close>, with the directory that the dialog returns.\<close>

definition browse_directory :: "os \<Rightarrow> string \<Rightarrow> app \<Rightarrow> app" where
  "browse_directory sys directory s =
     (if directory \<noteq> [] then refresh_files sys (s\<lparr>self_form := (self_form s)\<lparr>dir_entry := directory\<rparr>\<rparr>)
      else s)"

text \<open>\<open>toggle_exclude\<close>, after the check box has changed: a new file handler, with the
  patterns of the entry or with none.\<close>

definition toggle_exclude :: "os \<Rightarrow> app \<Rightarrow> app" where
  "toggle_exclude sys s =
     (let f = (self_form s)\<lparr>exclude_enabled := \<not> exclude_enabled (self_form s)\<rparr>;
          s1 = s\<lparr>self_form := f,
                 self_exclude_patterns := (if exclude_enabled f then entry_patterns f else {}),
                 visited_paths := {}\<rparr>
      in refresh_files sys s1)"

section \<open>MainApplication: the events\<close>

text \<open>
  What the user and the workers do, one event at a time: the entries are edited, a
  directory is picked, the filter is applied, the exclusions are switched, an item is
  clicked, a folder in focus is opened or closed, all is expanded or collapsed, the
  calculation is cancelled, tokens are requested for a directory, a worker makes a
  step, the queue is polled. \<open>depth\<close> bounds the recursion of a handler.
\<close>

datatype event =
    EditEntries string string string
  | Browse string
  | ApplyFilter
  | ToggleExclude
  | Click "iid option"
  | FolderOpen iid
  | FolderClose iid
  | ExpandAll
  | CollapseAll
  | CancelClick
  | RequestTokens string
  | WorkerStep nat
  | Poll

text \<open>
  The tree view opens the item in focus, which is an item that is shown; the dummy
  below a folder is replaced when the folder is opened and is never shown.
\<close>

fun fire :: "os \<Rightarrow> nat \<Rightarrow> event \<Rightarrow> app \<Rightarrow> app" where
  "fire sys depth (EditEntries d f x) s =
     s\<lparr>self_form := (self_form s)\<lparr>dir_entry := d, filter_entry := f, exclude_entry := x\<rparr>\<rparr>"
| "fire sys depth (Browse d) s = browse_directory sys d s"
| "fire sys depth ApplyFilter s = refresh_files sys s"
| "fire sys depth ToggleExclude s = toggle_exclude sys s"
| "fire sys depth (Click target) s = handle_click sys depth target s"
| "fire sys depth (FolderOpen item) s =
     (if has_tag s item ''dummy'' then s else on_folder_open sys item s)"
| "fire sys depth (FolderClose item) s = on_folder_close depth item s"
| "fire sys depth ExpandAll s = expand_all_folders sys depth s"
| "fire sys depth CollapseAll s = collapse_all_folders depth s"
| "fire sys depth CancelClick s = cancel_current_operation s"
| "fire sys depth (RequestTokens d) s = calculate_directory_tokens sys d s"
| "fire sys depth (WorkerStep k) s = worker_step sys k s"
| "fire sys depth Poll s = check_token_queue s"

definition run :: "os \<Rightarrow> nat \<Rightarrow> event list \<Rightarrow> app \<Rightarrow> app" where
  "run sys depth events s = fold (fire sys depth) events s"

text \<open>\<open>','.join(sorted(self.file_handler.DEFAULT_EXCLUDE_PATTERNS))\<close>.\<close>

definition default_excludes :: string where
  "default_excludes =
     ''.env,.env.local,.git,.gitignore,.idea,.mypy_cache,.next,.pyt''
     @ ''est_cache,.venv,.vs,.vscode,__pycache__,build,coverage,dist,env,myenv,''
     @ ''node_modules,target,vendor,venv''"

text \<open>The application as \<open>__init__\<close> leaves it.\<close>

definition initial :: app where
  "initial =
     \<lparr>self_form = \<lparr>dir_entry = [], filter_entry = ''.py,.js,.md'',
              exclude_entry = default_excludes, exclude_enabled = True\<rparr>,
      self_exclude_patterns = DEFAULT_EXCLUDE_PATTERNS,
      visited_paths = {}, tree = Map.empty, root_kids = [], next_auto = 0,
      checked_items = {}, calculated_directories = {}, token_queue = [],
      cancel_operation = False, threads = [], pending_calculations = None,
      calculation_results = Map.empty\<rparr>"

section \<open>MainApplication: the invariant of the selection\<close>

text \<open>The invariant of the selection, on the items and the checked set.\<close>

definition no_excluded_checked :: "app \<Rightarrow> bool" where
  "no_excluded_checked s =
     (\<forall>i \<in> checked_items s. \<forall>it. tree s i = Some it \<longrightarrow> ''excluded'' \<notin> set (tags it))"

definition dummies_kept_apart :: "(iid \<rightharpoonup> item) \<Rightarrow> bool" where
  "dummies_kept_apart t =
     (\<forall>i it. t i = Some it \<and> ''dummy'' \<in> set (tags it) \<longrightarrow>
        (\<exists>n. i = AutoId n) \<and> kids it = [] \<and> ''folder'' \<notin> set (tags it))"

definition sel_inv_on :: "(iid \<rightharpoonup> item) \<Rightarrow> iid set \<Rightarrow> bool" where
  "sel_inv_on t c =
     (dummies_kept_apart t
      \<and> (\<forall>p. PathId p \<in> c \<longrightarrow> t (PathId p) \<noteq> None)
      \<and> (\<forall>i \<in> c. \<forall>it. t i = Some it \<longrightarrow> ''excluded'' \<notin> set (tags it)))"

definition sel_inv :: "app \<Rightarrow> bool" where
  "sel_inv s = sel_inv_on (tree s) (checked_items s)"

definition spec_ok :: "ins \<Rightarrow> bool" where
  "spec_ok spec =
     ((ins_iid spec = None \<longrightarrow> ''excluded'' \<notin> set (ins_tags spec))
      \<and> (''dummy'' \<in> set (ins_tags spec) \<longrightarrow>
           ins_iid spec = None \<and> ''folder'' \<notin> set (ins_tags spec) \<and> \<not> ins_dummy spec))"

text \<open>The items that exist and are not placeholders, and the steps that keep them.\<close>

definition solid :: "app \<Rightarrow> iid \<Rightarrow> bool" where
  "solid s j = (tree s j \<noteq> None \<and> \<not> has_tag s j ''dummy'')"

definition frame :: "app \<Rightarrow> app \<Rightarrow> bool" where
  "frame s s' = (\<forall>j. solid s j \<longrightarrow> solid s' j)"

section \<open>Example directories\<close>

text \<open>A directory \<open>/r\<close> that holds the folder \<open>env\<close> and the file \<open>a.py\<close>.\<close>

definition env_os :: os where
  "env_os = void_os
     \<lparr>join := (\<lambda>a b. a @ ''/'' @ b),
      relpath := (\<lambda>p start. Inr (drop (length start + 1) p)),
      isdir := (\<lambda>p. p = ''/r'' \<or> p = ''/r/env''),
      isfile := (\<lambda>p. p = ''/r/a.py''),
      listdir := (\<lambda>p. if p = ''/r'' then Some [''env'', ''a.py''] else None),
      read_bytes := (\<lambda>p. if p = ''/r/a.py'' then Some [0x78] else None),
      read_text := (\<lambda>p. if p = ''/r/a.py'' then Inr ''x'' else Inl ''No such file or directory'')\<rparr>"

definition browsed :: app where
  "browsed = fire env_os 3 (Browse ''/r'') initial"







section \<open>Properties\<close>

subsection \<open>ExclusionMatcher\<close>

lemma split_replace: "split_chr CHR ''/'' (replace_chr backslash CHR ''/'' p) = split_by is_sep p"
  by (induction p) (auto simp: replace_chr_def is_sep_def split: list.splits)

lemma split_by_ne: "split_by P p \<noteq> []"
  by (induction p) (auto split: list.splits)

lemma hd_split_by: "hd (split_by P p) = takeWhile (\<lambda>c. \<not> P c) p"
  by (induction p) (auto split: list.splits simp: split_by_ne)

lemma takeWhile_stop: "suf = [] \<or> P (hd suf) \<Longrightarrow> takeWhile (\<lambda>c. \<not> P c) suf = []"
  by (cases suf) auto

lemma dropWhile_stop: "suf = [] \<or> P (hd suf) \<Longrightarrow> dropWhile (\<lambda>c. \<not> P c) suf = suf"
  by (cases suf) auto

lemma first_piece:
  "piece P p [] part suf \<longleftrightarrow>
     part = takeWhile (\<lambda>c. \<not> P c) p \<and> suf = dropWhile (\<lambda>c. \<not> P c) p"
proof
  assume a: "piece P p [] part suf"
  then have p: "p = part @ suf" and s: "suf = [] \<or> P (hd suf)"
    and f: "\<And>c. c \<in> set part \<Longrightarrow> \<not> P c"
    by (simp_all add: piece_def)
  have "takeWhile (\<lambda>c. \<not> P c) (part @ suf) = part @ takeWhile (\<lambda>c. \<not> P c) suf"
    by (rule takeWhile_append2) (rule f)
  moreover have "dropWhile (\<lambda>c. \<not> P c) (part @ suf) = dropWhile (\<lambda>c. \<not> P c) suf"
    by (rule dropWhile_append2) (rule f)
  ultimately show "part = takeWhile (\<lambda>c. \<not> P c) p \<and> suf = dropWhile (\<lambda>c. \<not> P c) p"
    using p s takeWhile_stop[of suf P] dropWhile_stop[of suf P] by simp
next
  assume a: "part = takeWhile (\<lambda>c. \<not> P c) p \<and> suf = dropWhile (\<lambda>c. \<not> P c) p"
  have 1: "p = [] @ part @ suf" using a by simp
  have 2: "suf = [] \<or> P (hd suf)"
    using a hd_dropWhile[of "\<lambda>c. \<not> P c" p] by blast
  have 3: "\<forall>c \<in> set part. \<not> P c"
    using a set_takeWhileD[of _ "\<lambda>c. \<not> P c" p] by blast
  show "piece P p [] part suf"
    unfolding piece_def using 1 2 3 by blast
qed

lemma piece_Cons_sep:
  "P c \<Longrightarrow> piece P (c # cs) (x # pre) part suf \<longleftrightarrow> x = c \<and> piece P cs pre part suf"
  by (auto simp: piece_def)

lemma piece_Cons_nonsep:
  "\<not> P c \<Longrightarrow> piece P (c # cs) (x # pre) part suf \<longleftrightarrow> x = c \<and> pre \<noteq> [] \<and> piece P cs pre part suf"
  by (auto simp: piece_def)

lemma piece_any:
  "(\<exists>pre suf. piece P p pre part suf) \<longleftrightarrow>
     part = takeWhile (\<lambda>c. \<not> P c) p \<or> (\<exists>pre suf. pre \<noteq> [] \<and> piece P p pre part suf)"
  by (metis first_piece)

lemma piece_later_sep:
  assumes "P c"
  shows "(\<exists>pre suf. pre \<noteq> [] \<and> piece P (c # cs) pre part suf) \<longleftrightarrow>
         (\<exists>pre suf. piece P cs pre part suf)"
proof
  assume "\<exists>pre suf. pre \<noteq> [] \<and> piece P (c # cs) pre part suf"
  then obtain x pre suf where "piece P (c # cs) (x # pre) part suf"
    by (metis neq_Nil_conv)
  then have "piece P cs pre part suf"
    using piece_Cons_sep[of P c cs x pre part suf] assms by blast
  then show "\<exists>pre suf. piece P cs pre part suf" by blast
next
  assume "\<exists>pre suf. piece P cs pre part suf"
  then obtain pre suf where "piece P cs pre part suf" by blast
  then have "piece P (c # cs) (c # pre) part suf"
    using piece_Cons_sep[of P c cs c pre part suf] assms by blast
  then have "c # pre \<noteq> [] \<and> piece P (c # cs) (c # pre) part suf" by simp
  then show "\<exists>pre suf. pre \<noteq> [] \<and> piece P (c # cs) pre part suf" by blast
qed

lemma piece_later_nonsep:
  assumes "\<not> P c"
  shows "(\<exists>pre suf. pre \<noteq> [] \<and> piece P (c # cs) pre part suf) \<longleftrightarrow>
         (\<exists>pre suf. pre \<noteq> [] \<and> piece P cs pre part suf)"
proof
  assume "\<exists>pre suf. pre \<noteq> [] \<and> piece P (c # cs) pre part suf"
  then obtain x pre suf where "piece P (c # cs) (x # pre) part suf"
    by (metis neq_Nil_conv)
  then have "pre \<noteq> [] \<and> piece P cs pre part suf"
    using piece_Cons_nonsep[of P c cs x pre part suf] assms by blast
  then show "\<exists>pre suf. pre \<noteq> [] \<and> piece P cs pre part suf" by blast
next
  assume "\<exists>pre suf. pre \<noteq> [] \<and> piece P cs pre part suf"
  then obtain pre suf where "pre \<noteq> []" "piece P cs pre part suf" by blast
  then have "piece P (c # cs) (c # pre) part suf"
    using piece_Cons_nonsep[of P c cs c pre part suf] assms by blast
  then have "c # pre \<noteq> [] \<and> piece P (c # cs) (c # pre) part suf" by simp
  then show "\<exists>pre suf. pre \<noteq> [] \<and> piece P (c # cs) pre part suf" by blast
qed

lemma set_hd_tl: "xs \<noteq> [] \<Longrightarrow> set xs = insert (hd xs) (set (tl xs))"
  by (cases xs) auto

lemma tl_split_by:
  "set (tl (split_by P p)) = {part. \<exists>pre suf. pre \<noteq> [] \<and> piece P p pre part suf}"
proof (induction p)
  case Nil
  show ?case by (auto simp: piece_def)
next
  case (Cons c cs)
  show ?case
  proof (cases "P c")
    case True
    have "set (tl (split_by P (c # cs))) = set (split_by P cs)" using True by simp
    also have "\<dots> = insert (hd (split_by P cs)) (set (tl (split_by P cs)))"
      by (rule set_hd_tl[OF split_by_ne])
    also have "\<dots> = {part. \<exists>pre suf. piece P cs pre part suf}"
      unfolding Cons.IH hd_split_by using piece_any[of P cs] by auto
    also have "\<dots> = {part. \<exists>pre suf. pre \<noteq> [] \<and> piece P (c # cs) pre part suf}"
      by (rule Collect_cong) (rule piece_later_sep[where P=P and c=c, OF True, symmetric])
    finally show ?thesis .
  next
    case False
    have "set (tl (split_by P (c # cs))) = set (tl (split_by P cs))"
      using False split_by_ne[of P cs] by (cases "split_by P cs") auto
    also have "\<dots> = {part. \<exists>pre suf. pre \<noteq> [] \<and> piece P cs pre part suf}" by (rule Cons.IH)
    also have "\<dots> = {part. \<exists>pre suf. pre \<noteq> [] \<and> piece P (c # cs) pre part suf}"
      by (rule Collect_cong) (rule piece_later_nonsep[where P=P and c=c, OF False, symmetric])
    finally show ?thesis .
  qed
qed

lemma set_split_by: "set (split_by P p) = {part. \<exists>pre suf. piece P p pre part suf}"
proof -
  have "set (split_by P p) = insert (hd (split_by P p)) (set (tl (split_by P p)))"
    by (rule set_hd_tl[OF split_by_ne])
  also have "\<dots> = {part. \<exists>pre suf. piece P p pre part suf}"
    unfolding tl_split_by hd_split_by using piece_any[of P p] by auto
  finally show ?thesis .
qed

lemma path_component_piece:
  "path_component p part \<longleftrightarrow> (\<exists>pre suf. piece is_sep p pre part suf)"
  by (simp add: path_component_def piece_def)

lemma in_split_by_iff: "part \<in> set (split_by is_sep p) \<longleftrightarrow> path_component p part"
  by (simp add: set_split_by path_component_piece)

text \<open>
  C2. \<open>should_exclude\<close> holds of a relative path exactly when one of its path
  components, after splitting at slashes and backslashes, is equal to a pattern of the
  exclusion set. A component that only contains a pattern as a substring does not
  match: \<open>environment\<close> is not excluded by the pattern \<open>env\<close>.
\<close>

theorem should_exclude_iff_component:
  "(should_exclude exclude_patterns p \<longleftrightarrow>
      (\<exists>part. path_component p part \<and> part \<in> exclude_patterns))
   \<and> \<not> should_exclude {''env''} ''environment''"
proof
  have "should_exclude exclude_patterns p \<longleftrightarrow> (\<exists>part \<in> set (split_by is_sep p). part \<in> exclude_patterns)"
    by (simp add: should_exclude_def split_replace list_ex_iff)
  also have "\<dots> \<longleftrightarrow> (\<exists>part. path_component p part \<and> part \<in> exclude_patterns)"
    unfolding Bex_def in_split_by_iff ..
  finally show "should_exclude exclude_patterns p \<longleftrightarrow>
      (\<exists>part. path_component p part \<and> part \<in> exclude_patterns)" .
  show "\<not> should_exclude {''env''} ''environment''"
    by (simp add: should_exclude_def replace_chr_def backslash_def)
qed

theorem should_exclude_iff_component_witness:
  "should_exclude {''env'', ''.git''} (''src'' @ [backslash] @ ''env/a.py'')
   \<and> path_component (''src'' @ [backslash] @ ''env/a.py'') ''env''"
proof -
  have c: "path_component (''src'' @ [backslash] @ ''env/a.py'') ''env''"
    unfolding path_component_def
    by (rule exI[of _ "''src'' @ [backslash]"], rule exI[of _ "''/a.py''"])
       (simp add: is_sep_def backslash_def)
  then show ?thesis
    using should_exclude_iff_component[of "{''env'', ''.git''}" "''src'' @ [backslash] @ ''env/a.py''"]
    by blast
qed

subsection \<open>PathSafety\<close>

text \<open>
  C9. \<open>is_safe_path\<close> resolves the path. When the resolved path is already in the
  visited set, the answer is False and the set is unchanged; when it is not, it is
  inserted and the answer is True; when the resolution fails, the answer is False and
  the set is unchanged. The result is a value in every case: nothing is raised.
\<close>

theorem is_safe_path_contract:
  "(realpath sys path = Some r \<and> r \<in> visited \<longrightarrow>
      is_safe_path sys path visited = (False, visited))
   \<and> (realpath sys path = Some r \<and> r \<notin> visited \<longrightarrow>
      is_safe_path sys path visited = (True, insert r visited))
   \<and> (realpath sys path = None \<longrightarrow>
      is_safe_path sys path visited = (False, visited))"
  by (simp add: is_safe_path_def)

theorem is_safe_path_contract_witness:
  "realpath void_os ''/repo/link'' = Some ''/repo/link''
   \<and> is_safe_path void_os ''/repo/link'' {''/repo''} = (True, {''/repo/link'', ''/repo''})
   \<and> is_safe_path void_os ''/repo/link'' {''/repo/link'', ''/repo''}
       = (False, {''/repo/link'', ''/repo''})
   \<and> realpath (void_os\<lparr>realpath := (\<lambda>p. None)\<rparr>) ''/repo/link'' = None
   \<and> is_safe_path (void_os\<lparr>realpath := (\<lambda>p. None)\<rparr>) ''/repo/link'' {''/repo''}
       = (False, {''/repo''})"
proof -
  have r: "realpath void_os ''/repo/link'' = Some ''/repo/link''"
    by (simp add: void_os_def)
  have n: "realpath (void_os\<lparr>realpath := (\<lambda>p. None)\<rparr>) ''/repo/link'' = None"
    by simp
  show ?thesis
    using r n
      is_safe_path_contract[of void_os "''/repo/link''" "''/repo/link''" "{''/repo''}"]
      is_safe_path_contract[of void_os "''/repo/link''" "''/repo/link''" "{''/repo/link'', ''/repo''}"]
      is_safe_path_contract[of "void_os\<lparr>realpath := (\<lambda>p. None)\<rparr>" "''/repo/link''" "[]" "{''/repo''}"]
    by simp
qed

subsection \<open>Binary detection\<close>

lemma textchars_iff:
  "n \<in> textchars \<longleftrightarrow> n \<in> {7, 8, 9, 10, 12, 13, 27} \<or> (0x20 \<le> n \<and> n \<le> 0xFF \<and> n \<noteq> 0x7F)"
  unfolding textchars_def set_upt by auto

text \<open>
  C7, as the code has it. For a file whose guessed extension is not on the denylist:
  when its first bytes can be read, \<open>is_binary_file\<close> holds exactly when one of the
  first 1024 bytes is outside the allowlist 7, 8, 9, 10, 12, 13, 27 and 0x20 to 0xFF
  without 0x7F, so the byte 0xFF is on the allowlist; when the file cannot be read,
  \<open>is_binary_file\<close> holds.
\<close>

theorem is_binary_file_sniff:
  assumes "lower (guess_extension sys filepath) \<notin> BINARY_EXTENSIONS"
  shows "(\<forall>content. read_bytes sys filepath = Some content \<longrightarrow>
            (is_binary_file sys filepath \<longleftrightarrow>
              (\<exists>b \<in> set (take 1024 content).
                 \<not> (unat b \<in> {7, 8, 9, 10, 12, 13, 27}
                    \<or> (0x20 \<le> unat b \<and> unat b \<le> 0xFF \<and> unat b \<noteq> 0x7F)))))
       \<and> (read_bytes sys filepath = None \<longrightarrow> is_binary_file sys filepath)"
proof (intro conjI allI impI)
  fix content assume r: "read_bytes sys filepath = Some content"
  have "is_binary_file sys filepath \<longleftrightarrow>
        filter (\<lambda>b. unat b \<notin> textchars) (take 1024 content) \<noteq> []"
    using assms r by (simp add: is_binary_file_def)
  also have "\<dots> \<longleftrightarrow> (\<exists>b \<in> set (take 1024 content). unat b \<notin> textchars)"
    by (simp add: filter_empty_conv)
  finally show "is_binary_file sys filepath \<longleftrightarrow>
              (\<exists>b \<in> set (take 1024 content).
                 \<not> (unat b \<in> {7, 8, 9, 10, 12, 13, 27}
                    \<or> (0x20 \<le> unat b \<and> unat b \<le> 0xFF \<and> unat b \<noteq> 0x7F)))"
    unfolding textchars_iff .
next
  assume "read_bytes sys filepath = None"
  then show "is_binary_file sys filepath"
    by (simp add: is_binary_file_def)
qed

lemma lower_dot_txt: "lower ''.txt'' = ''.txt''"
  by code_simp

lemma ff_os_ext: "lower (guess_extension ff_os p) \<notin> BINARY_EXTENSIONS"
  by (simp add: ff_os_def lower_dot_txt BINARY_EXTENSIONS_def)

lemma ff_os_bytes: "read_bytes ff_os ''notes.txt'' = Some [0xFF]"
  by (simp add: ff_os_def)

lemma ff_os_missing: "read_bytes ff_os ''missing.txt'' = None"
  by (simp add: ff_os_def void_os_def)

theorem is_binary_file_sniff_witness:
  "\<not> is_binary_file ff_os ''notes.txt''
   \<and> is_binary_file (ff_os\<lparr>read_bytes := (\<lambda>p. Some [0x41, 0x00])\<rparr>) ''notes.txt''
   \<and> read_bytes ff_os ''missing.txt'' = None
   \<and> is_binary_file ff_os ''missing.txt''"
proof -
  have e: "lower (guess_extension (ff_os\<lparr>read_bytes := (\<lambda>p. Some [0x41, 0x00])\<rparr>) ''notes.txt'')
             \<notin> BINARY_EXTENSIONS"
    using ff_os_ext[of "''notes.txt''"] by simp
  have b: "read_bytes (ff_os\<lparr>read_bytes := (\<lambda>p. Some [0x41, 0x00])\<rparr>) ''notes.txt''
             = Some [0x41, 0x00]"
    by simp
  have 1: "\<not> is_binary_file ff_os ''notes.txt''"
    using is_binary_file_sniff[OF ff_os_ext[of "''notes.txt''"]] ff_os_bytes by simp
  have 2: "is_binary_file (ff_os\<lparr>read_bytes := (\<lambda>p. Some [0x41, 0x00])\<rparr>) ''notes.txt''"
    using is_binary_file_sniff[OF e] b by simp
  have 3: "is_binary_file ff_os ''missing.txt''"
    using is_binary_file_sniff[OF ff_os_ext[of "''missing.txt''"]] ff_os_missing by blast
  show ?thesis using 1 2 3 ff_os_missing by blast
qed

text \<open>
  C7, as the specification has it, fails: a readable file with no denylisted extension
  whose only byte is 0xFF, which is outside 0x20 to 0xFE, is not classified binary.
\<close>

theorem is_binary_file_ff_counterexample:
  "lower (guess_extension ff_os ''notes.txt'') \<notin> BINARY_EXTENSIONS
   \<and> read_bytes ff_os ''notes.txt'' = Some [0xFF]
   \<and> (\<exists>b \<in> set (take 1024 [0xFF :: byte]).
         \<not> (unat b \<in> {7, 8, 9, 10, 12, 13, 27}
            \<or> (0x20 \<le> unat b \<and> unat b \<le> 0xFE \<and> unat b \<noteq> 0x7F)))
   \<and> \<not> is_binary_file ff_os ''notes.txt''"
  using ff_os_ext ff_os_bytes
  by (simp add: is_binary_file_def textchars_iff)

subsection \<open>DigestComposer\<close>

text \<open>
  C10. With no selected path, \<open>generate_markdown_to_string\<close> succeeds with the empty
  document: no tree section, no header, no error.
\<close>

theorem generate_markdown_to_string_empty:
  "generate_markdown_to_string sys exclude_patterns [] = Some (Inr [])"
  by (simp add: generate_markdown_to_string_def locate_roots_def)

lemma foldl_fromkeys_distinct:
  "distinct acc \<Longrightarrow>
   distinct (foldl (\<lambda>keys k. if k \<in> set keys then keys else keys @ [k]) acc xs)"
  by (induction xs arbitrary: acc) auto

lemma foldl_fromkeys_set:
  "set (foldl (\<lambda>keys k. if k \<in> set keys then keys else keys @ [k]) acc xs) = set acc \<union> set xs"
  by (induction xs arbitrary: acc) auto

lemma foldl_fromkeys_dedup:
  "foldl (\<lambda>keys k. if k \<in> set keys then keys else keys @ [k]) acc xs
     = acc @ dedup_first (filter (\<lambda>y. y \<notin> set acc) xs)"
proof (induction xs arbitrary: acc)
  case Nil
  show ?case by simp
next
  case (Cons x xs)
  show ?case
  proof (cases "x \<in> set acc")
    case True
    then show ?thesis using Cons.IH[of acc] by simp
  next
    case False
    have "filter (\<lambda>y. y \<noteq> x) (filter (\<lambda>y. y \<notin> set acc) xs)
            = filter (\<lambda>y. y \<notin> set (acc @ [x])) xs"
      by (induction xs) auto
    then show ?thesis using False Cons.IH[of "acc @ [x]"] by simp
  qed
qed

lemma dict_fromkeys_dedup: "dict_fromkeys xs = dedup_first xs"
  using foldl_fromkeys_dedup[of "[]" xs] by (simp add: dict_fromkeys_def)

lemma dict_fromkeys_distinct: "distinct (dict_fromkeys xs)"
  using foldl_fromkeys_distinct[of "[]" xs] by (simp add: dict_fromkeys_def)

lemma dict_fromkeys_set: "set (dict_fromkeys xs) = set xs"
  using foldl_fromkeys_set[of "[]" xs] by (simp add: dict_fromkeys_def)

lemma file_sections_concat:
  assumes "\<forall>p \<in> set file_paths. \<not> isdir sys p \<longrightarrow> (\<exists>r. relpath sys p common_prefix = Inr r)"
  shows "file_sections sys common_prefix file_paths
           = Inr (concat (map (section_of sys common_prefix)
                              (filter (\<lambda>p. \<not> isdir sys p) file_paths)))"
  using assms
proof (induction file_paths)
  case Nil
  show ?case by simp
next
  case (Cons p ps)
  then have ih: "file_sections sys common_prefix ps
           = Inr (concat (map (section_of sys common_prefix)
                              (filter (\<lambda>p. \<not> isdir sys p) ps)))"
    by simp
  show ?case
  proof (cases "isdir sys p")
    case True
    then show ?thesis using ih by simp
  next
    case False
    then obtain r where "relpath sys p common_prefix = Inr r"
      using Cons.prems by auto
    then have "section_of sys common_prefix p = file_section sys p r"
      by (simp add: section_of_def)
    then show ?thesis using False ih \<open>relpath sys p common_prefix = Inr r\<close> by simp
  qed
qed

lemma section_of_shape:
  assumes "relpath sys file_path common_prefix = Inr rel_path"
  shows "section_of sys common_prefix file_path
           = ''# '' @ rel_path @ nl @ nl @
             (case read_text sys file_path of
                Inr content \<Rightarrow>
                  fence @ get_language_identifier sys file_path @ nl @ content @ nl @ fence @ nl @ nl
              | Inl e \<Rightarrow> ''Error reading file - '' @ rel_path @ '': '' @ e @ nl @ nl)"
  using assms by (simp add: section_of_def file_section_def Let_def)

text \<open>
  C8, as the code has it. \<open>generate_markdown_to_string\<close> does not remove duplicates.
  Once the roots are located and every relative path resolves, its output is the tree
  preamble (when the repository root is not empty) followed by one section for every
  element of its input that is not a directory, in the order of the input and nothing
  else; a section is one header line with the relative path and one fenced block, or
  one error line when the file cannot be read. Its caller
  \<open>copy_markdown_to_clipboard\<close> removes the duplicates first, first occurrence
  winning, so that the paths it passes on are distinct, are the paths it collected,
  and stand in the order of their first occurrences.
\<close>

theorem compose_sections_follow_input:
  assumes "locate_roots sys file_paths = Some (Inr (common_prefix, repo_root))"
    and "\<forall>p \<in> set file_paths. \<not> isdir sys p \<longrightarrow> (\<exists>r. relpath sys p common_prefix = Inr r)"
  shows "generate_markdown_to_string sys exclude_patterns file_paths
           = Some (Inr ((if repo_root \<noteq> []
                         then generate_directory_tree sys repo_root exclude_patterns
                                @ nl @ nl @ ''# Selected Files'' @ nl @ nl
                         else [])
                        @ concat (map (section_of sys common_prefix)
                                      (filter (\<lambda>p. \<not> isdir sys p) file_paths))))
       \<and> (\<forall>p rel_path. relpath sys p common_prefix = Inr rel_path \<longrightarrow>
            section_of sys common_prefix p
              = ''# '' @ rel_path @ nl @ nl @
                (case read_text sys p of
                   Inr content \<Rightarrow>
                     fence @ get_language_identifier sys p @ nl @ content @ nl @ fence @ nl @ nl
                 | Inl e \<Rightarrow> ''Error reading file - '' @ rel_path @ '': '' @ e @ nl @ nl))
       \<and> dict_fromkeys collected = dedup_first collected
       \<and> distinct (dict_fromkeys collected)
       \<and> set (dict_fromkeys collected) = set collected
       \<and> (collected \<noteq> [] \<longrightarrow>
            copy_markdown_to_clipboard sys frm collected
              = Some (generate_markdown_to_string sys
                        (Some (if exclude_enabled frm then entry_patterns frm else {}))
                        (dedup_first collected)))"
proof -
  have "generate_markdown_to_string sys exclude_patterns file_paths
           = Some (Inr ((if repo_root \<noteq> []
                         then generate_directory_tree sys repo_root exclude_patterns
                                @ nl @ nl @ ''# Selected Files'' @ nl @ nl
                         else [])
                        @ concat (map (section_of sys common_prefix)
                                      (filter (\<lambda>p. \<not> isdir sys p) file_paths))))"
    using assms(1) file_sections_concat[OF assms(2)]
    by (simp add: generate_markdown_to_string_def Let_def)
  moreover have "collected \<noteq> [] \<longrightarrow>
            copy_markdown_to_clipboard sys frm collected
              = Some (generate_markdown_to_string sys
                        (Some (if exclude_enabled frm then entry_patterns frm else {}))
                        (dedup_first collected))"
    by (cases collected) (simp_all add: copy_markdown_to_clipboard_def dict_fromkeys_dedup Let_def)
  ultimately show ?thesis
    using dict_fromkeys_dedup[of collected] dict_fromkeys_distinct[of collected]
      dict_fromkeys_set[of collected] section_of_shape[of sys _ common_prefix]
    by blast
qed

lemma one_file_roots:
  "locate_roots one_file_os [''/r/a.py'', ''/r/a.py''] = Some (Inr (''/r'', ''/r''))"
  by (simp add: locate_roots_def one_file_os_def void_os_def find_repo_root.simps)

lemma one_file_roots_single:
  "locate_roots one_file_os [''/r/a.py''] = Some (Inr (''/r'', ''/r''))"
  by (simp add: locate_roots_def one_file_os_def void_os_def find_repo_root.simps)

lemma one_file_tree:
  "generate_directory_tree one_file_os ''/r'' None
     = ''# Repository Structure'' @ nl @ nl @ fence @ nl @ glyph_package @ '' r'' @ nl
         @ connector_last @ ''a.py'' @ nl @ fence @ nl"
  by (simp add: generate_directory_tree_def one_file_os_def void_os_def sorted_entries_def
      tree_excluded_def Let_def)

lemma one_file_section:
  "section_of one_file_os ''/r'' ''/r/a.py''
     = ''# a.py'' @ nl @ nl @ fence @ ''python'' @ nl @ ''print(1)'' @ nl @ fence @ nl @ nl"
  by (simp add: section_of_def file_section_def get_language_identifier_def one_file_os_def
      void_os_def extension_map_def lower_def lower_chr_def)

theorem compose_sections_follow_input_witness:
  "generate_markdown_to_string one_file_os None (dict_fromkeys [''/r/a.py'', ''/r/a.py''])
     = Some (Inr (''# Repository Structure'' @ nl @ nl @ fence @ nl @ glyph_package @ '' r'' @ nl
         @ connector_last @ ''a.py'' @ nl @ fence @ nl
         @ nl @ nl @ ''# Selected Files'' @ nl @ nl
         @ ''# a.py'' @ nl @ nl @ fence @ ''python'' @ nl @ ''print(1)'' @ nl @ fence @ nl @ nl))
   \<and> dict_fromkeys [''/r/a.py'', ''/r/b.py'', ''/r/a.py''] = [''/r/a.py'', ''/r/b.py'']"
proof -
  have d: "\<forall>p \<in> set [''/r/a.py'']. \<not> isdir one_file_os p \<longrightarrow>
             (\<exists>r. relpath one_file_os p ''/r'' = Inr r)"
    by (simp add: one_file_os_def)
  have f: "filter (\<lambda>p. \<not> isdir one_file_os p) [''/r/a.py''] = [''/r/a.py'']"
    by (simp add: one_file_os_def void_os_def)
  note t = compose_sections_follow_input[OF one_file_roots_single d,
        of None "[''/r/a.py'', ''/r/b.py'', ''/r/a.py'']" plain_form]
  from t have "generate_markdown_to_string one_file_os None [''/r/a.py'']
        = Some (Inr ((if ''/r'' \<noteq> []
                         then generate_directory_tree one_file_os ''/r'' None
                                @ nl @ nl @ ''# Selected Files'' @ nl @ nl
                         else [])
             @ concat (map (section_of one_file_os ''/r'')
             (filter (\<lambda>p. \<not> isdir one_file_os p) [''/r/a.py'']))))"
    by blast
  then have 1: "generate_markdown_to_string one_file_os None [''/r/a.py'']
     = Some (Inr (''# Repository Structure'' @ nl @ nl @ fence @ nl @ glyph_package @ '' r'' @ nl
         @ connector_last @ ''a.py'' @ nl @ fence @ nl
         @ nl @ nl @ ''# Selected Files'' @ nl @ nl
         @ ''# a.py'' @ nl @ nl @ fence @ ''python'' @ nl @ ''print(1)'' @ nl @ fence @ nl @ nl))"
    unfolding f one_file_tree by (simp add: one_file_section)
  from t have "dict_fromkeys [''/r/a.py'', ''/r/b.py'', ''/r/a.py'']
                 = dedup_first [''/r/a.py'', ''/r/b.py'', ''/r/a.py'']"
    by blast
  then have 2: "dict_fromkeys [''/r/a.py'', ''/r/b.py'', ''/r/a.py''] = [''/r/a.py'', ''/r/b.py'']"
    by simp
  have 3: "dict_fromkeys [''/r/a.py'', ''/r/a.py''] = [''/r/a.py'']"
    by (simp add: dict_fromkeys_def)
  show ?thesis unfolding 3 using 1 2 by blast
qed

text \<open>
  C8, as the specification has it, fails: given the same path twice,
  \<open>generate_markdown_to_string\<close> writes its header and its block twice.
\<close>

theorem compose_duplicate_counterexample:
  "generate_markdown_to_string one_file_os None [''/r/a.py'', ''/r/a.py'']
     = Some (Inr (''# Repository Structure'' @ nl @ nl @ fence @ nl @ glyph_package @ '' r'' @ nl
         @ connector_last @ ''a.py'' @ nl @ fence @ nl
         @ nl @ nl @ ''# Selected Files'' @ nl @ nl
         @ ''# a.py'' @ nl @ nl @ fence @ ''python'' @ nl @ ''print(1)'' @ nl @ fence @ nl @ nl
         @ ''# a.py'' @ nl @ nl @ fence @ ''python'' @ nl @ ''print(1)'' @ nl @ fence @ nl @ nl))"
proof -
  have s: "file_sections one_file_os ''/r'' [''/r/a.py'', ''/r/a.py'']
             = Inr (section_of one_file_os ''/r'' ''/r/a.py'' @ section_of one_file_os ''/r'' ''/r/a.py'')"
    by (simp add: section_of_def one_file_os_def void_os_def)
  have "generate_markdown_to_string one_file_os None [''/r/a.py'', ''/r/a.py'']
          = Some (Inr ((generate_directory_tree one_file_os ''/r'' None
                          @ nl @ nl @ ''# Selected Files'' @ nl @ nl)
                       @ (section_of one_file_os ''/r'' ''/r/a.py''
                          @ section_of one_file_os ''/r'' ''/r/a.py'')))"
    unfolding generate_markdown_to_string_def one_file_roots
    by (simp add: s del: file_sections.simps)
  then show ?thesis
    unfolding one_file_tree one_file_section by simp
qed

text \<open>
  C4. The tree of the digest leaves out every entry whose relative path holds a pattern
  as a substring, not only the entries with a component equal to a pattern: with the
  pattern \<open>env\<close> the file \<open>environment\<close> is left out of the tree, although
  \<open>should_exclude\<close> does not exclude it.
\<close>

theorem tree_prunes_substring_match:
  "add_entries environment_os (Some {''env''}) ''/r'' ''/r'' []
       (sorted_entries [FileEntry ''main.py'', FileEntry ''environment''])
     = ([connector_last @ ''main.py''], None)
   \<and> \<not> should_exclude {''env''} ''environment''"
  by (simp add: environment_os_def void_os_def sorted_entries_def tree_excluded_def
      lower_def lower_chr_def should_exclude_def replace_chr_def backslash_def)

subsection \<open>Extension filter\<close>

lemma lower_A_PY: "lower ''A.PY'' = ''a.py''"
  by code_simp

lemma lower_dot_py: "lower ''.py'' = ''.py''"
  by code_simp

text \<open>
  C6. In the listing of a folder the extension test is made on the lowered name and the
  lowered extension, so \<open>A.PY\<close> passes the filter \<open>.py\<close>. In \<open>get_files\<close> the test
  is made on the name as it is: with the filter \<open>.py\<close> the file \<open>A.PY\<close> is left
  out, and it is found with the filter \<open>.PY\<close>.
\<close>

theorem get_files_extension_case:
  "get_files upper_os {} ''/r'' (Some [''.py'']) = Inr []
   \<and> get_files upper_os {} ''/r'' (Some [''.PY'']) = Inr [''A.PY'']
   \<and> get_files upper_os {} ''/r'' None = Inr [''A.PY'']
   \<and> populate_matches [''.py''] ''A.PY''"
  by (simp add: get_files_def upper_os_def void_os_def is_safe_path_def get_files_skips_def
      endswith_def should_exclude_def replace_chr_def backslash_def populate_matches_def
      lower_A_PY lower_dot_py)



subsection \<open>TreeWalker\<close>

lemma loop_nodes_all:
  "(\<forall>item \<in> set items. body item \<noteq> None) \<Longrightarrow>
   loop_nodes body items = (concat (map (\<lambda>item. nodes_of (body item)) items), True)"
  by (induction items) auto

lemma folder_nodes_tags:
  "n \<in> set (nodes_of (folder_nodes sys frm pats p item)) \<Longrightarrow> ''file'' \<notin> set (ins_tags n)"
  by (auto simp: folder_nodes_def Let_def split: sum.splits option.splits if_splits)

lemma file_nodes_tags:
  "n \<in> set (nodes_of (file_nodes sys frm pats p exts item)) \<Longrightarrow> ''folder'' \<notin> set (ins_tags n)"
  by (auto simp: file_nodes_def Let_def split: sum.splits option.splits if_splits)

lemma listing_nodes_sorted:
  assumes "\<forall>item \<in> set items. folder_nodes sys frm pats p item \<noteq> None
                               \<and> file_nodes sys frm pats p exts item \<noteq> None"
  shows "listing_nodes sys frm pats p exts items
           = concat (map (\<lambda>item. nodes_of (folder_nodes sys frm pats p item)) (sort items))
             @ concat (map (\<lambda>item. nodes_of (file_nodes sys frm pats p exts item)) (sort items))"
proof -
  have 1: "\<forall>item \<in> set (sort items). folder_nodes sys frm pats p item \<noteq> None"
    using assms by simp
  have 2: "\<forall>item \<in> set (sort items). file_nodes sys frm pats p exts item \<noteq> None"
    using assms by simp
  show ?thesis
    unfolding listing_nodes_def loop_nodes_all[OF 1] loop_nodes_all[OF 2] by simp
qed

lemma populate_nodes_seen:
  "realpath sys (normpath sys path) = Some r \<Longrightarrow> r \<in> visited \<Longrightarrow>
   populate_nodes sys frm pats visited path exts = (visited, [skipped_marker])"
  by (simp add: populate_nodes_def is_safe_path_def)

lemma populate_nodes_new:
  "realpath sys (normpath sys path) = Some r \<Longrightarrow> r \<notin> visited \<Longrightarrow>
   populate_nodes sys frm pats visited path exts
     = (insert r visited,
        (case listdir sys (normpath sys path) of
           None \<Rightarrow> []
         | Some items \<Rightarrow> listing_nodes sys frm pats (normpath sys path) exts items))"
  by (simp add: populate_nodes_def is_safe_path_def split: option.splits)

text \<open>
  C5, as the code has it. The listing of a folder depends on the visited set of the
  session. When the resolved path of the folder is not in the visited set, the listing
  is that of the directory alone, the same for every such visited set, and the path
  is added to the set; it holds the folder items of the sorted names, then the file
  items of the sorted names. When the resolved path is in the visited set, and so on
  every second invocation on the same folder without a reset, the listing is the
  cycle-skip marker alone.
\<close>

theorem populate_nodes_session:
  assumes "realpath sys (normpath sys path) = Some r"
  shows "(r \<notin> visited \<longrightarrow>
            populate_nodes sys frm pats visited path exts
              = (insert r visited,
                 (case listdir sys (normpath sys path) of
                    None \<Rightarrow> []
                  | Some items \<Rightarrow> listing_nodes sys frm pats (normpath sys path) exts items)))
       \<and> (r \<notin> visited \<and> r \<notin> visited' \<longrightarrow>
            snd (populate_nodes sys frm pats visited path exts)
              = snd (populate_nodes sys frm pats visited' path exts))
       \<and> (r \<in> visited \<longrightarrow>
            populate_nodes sys frm pats visited path exts = (visited, [skipped_marker]))
       \<and> snd (populate_nodes sys frm pats
                 (fst (populate_nodes sys frm pats visited path exts)) path exts)
            = [skipped_marker]
       \<and> ((\<forall>item \<in> set items. folder_nodes sys frm pats p item \<noteq> None
                                \<and> file_nodes sys frm pats p exts item \<noteq> None) \<longrightarrow>
            listing_nodes sys frm pats p exts items
              = concat (map (\<lambda>item. nodes_of (folder_nodes sys frm pats p item)) (sort items))
                @ concat (map (\<lambda>item. nodes_of (file_nodes sys frm pats p exts item)) (sort items)))
       \<and> sorted (sort items)
       \<and> (\<forall>n \<in> set (nodes_of (folder_nodes sys frm pats p item)). ''file'' \<notin> set (ins_tags n))
       \<and> (\<forall>n \<in> set (nodes_of (file_nodes sys frm pats p exts item)). ''folder'' \<notin> set (ins_tags n))"
proof -
  have again: "snd (populate_nodes sys frm pats
                 (fst (populate_nodes sys frm pats visited path exts)) path exts)
            = [skipped_marker]"
  proof (cases "r \<in> visited")
    case True
    then show ?thesis using populate_nodes_seen[OF assms] by simp
  next
    case False
    then show ?thesis
      using populate_nodes_new[OF assms False, of frm pats exts]
        populate_nodes_seen[OF assms, of "insert r visited" frm pats exts]
      by simp
  qed
  show ?thesis
    using again populate_nodes_new[OF assms] populate_nodes_seen[OF assms]
      listing_nodes_sorted folder_nodes_tags file_nodes_tags
    by (simp add: sorted_sort)
qed

lemma plain_sort: "sort [''lib'', ''a.py''] = [''a.py'', ''lib'']"
  by simp

lemma plain_listing:
  "listing_nodes plain_os plain_form {''env''} ''/r'' [''.py''] [''lib'', ''a.py'']
     = [\<lparr>ins_iid = Some ''/r/lib'', ins_text = box_empty @ '' lib'', ins_value = Str [],
         ins_tags = [''folder''], ins_dummy = True\<rparr>,
        \<lparr>ins_iid = Some ''/r/a.py'', ins_text = box_empty @ '' a.py'', ins_value = Num 1,
         ins_tags = [''file''], ins_dummy = False\<rparr>]"
  unfolding listing_nodes_def plain_sort
  by (simp add: folder_nodes_def file_nodes_def plain_os_def plain_form_def void_os_def
      should_exclude_def replace_chr_def backslash_def populate_matches_def endswith_def
      lower_def lower_chr_def count_tokens_in_file_def is_binary_file_def
      BINARY_EXTENSIONS_def textchars_iff)

theorem populate_nodes_session_witness:
  "populate_nodes plain_os plain_form {''env''} {} ''/r'' [''.py'']
     = ({''/r''},
        [\<lparr>ins_iid = Some ''/r/lib'', ins_text = box_empty @ '' lib'', ins_value = Str [],
          ins_tags = [''folder''], ins_dummy = True\<rparr>,
         \<lparr>ins_iid = Some ''/r/a.py'', ins_text = box_empty @ '' a.py'', ins_value = Num 1,
          ins_tags = [''file''], ins_dummy = False\<rparr>])
   \<and> populate_nodes plain_os plain_form {''env''} {''/r''} ''/r'' [''.py'']
       = ({''/r''}, [skipped_marker])"
proof -
  have r: "realpath plain_os (normpath plain_os ''/r'') = Some ''/r''"
    by (simp add: plain_os_def void_os_def)
  have l: "listdir plain_os (normpath plain_os ''/r'') = Some [''lib'', ''a.py'']"
    by (simp add: plain_os_def void_os_def)
  have n: "normpath plain_os ''/r'' = ''/r''"
    by (simp add: plain_os_def void_os_def)
  have 1: "populate_nodes plain_os plain_form {''env''} {} ''/r'' [''.py'']
     = ({''/r''}, listing_nodes plain_os plain_form {''env''} ''/r'' [''.py''] [''lib'', ''a.py''])"
    using populate_nodes_session[OF r, of "{}" plain_form "{''env''}" "[''.py'']"] l n by simp
  have 2: "populate_nodes plain_os plain_form {''env''} {''/r''} ''/r'' [''.py'']
       = ({''/r''}, [skipped_marker])"
    using populate_nodes_session[OF r, of "{''/r''}" plain_form "{''env''}" "[''.py'']"] by simp
  show ?thesis using 1 2 plain_listing by simp
qed

text \<open>
  C5, as the specification has it, fails: in a directory without links, the second
  listing of the same folder in one session is the cycle-skip marker, not the items of
  the first listing.
\<close>

theorem populate_twice_counterexample:
  "(\<forall>p. \<not> islink plain_os p)
   \<and> snd (populate_nodes plain_os plain_form {''env''} {} ''/r'' [''.py''])
       = [\<lparr>ins_iid = Some ''/r/lib'', ins_text = box_empty @ '' lib'', ins_value = Str [],
           ins_tags = [''folder''], ins_dummy = True\<rparr>,
          \<lparr>ins_iid = Some ''/r/a.py'', ins_text = box_empty @ '' a.py'', ins_value = Num 1,
           ins_tags = [''file''], ins_dummy = False\<rparr>]
   \<and> snd (populate_nodes plain_os plain_form {''env''}
            (fst (populate_nodes plain_os plain_form {''env''} {} ''/r'' [''.py'']))
            ''/r'' [''.py''])
       = [skipped_marker]"
proof -
  have l: "islink plain_os = (\<lambda>p. False)"
    by (simp add: plain_os_def void_os_def)
  have r: "realpath plain_os (normpath plain_os ''/r'') = Some ''/r''"
    by (simp add: plain_os_def void_os_def)
  have d: "listdir plain_os (normpath plain_os ''/r'') = Some [''lib'', ''a.py'']"
    by (simp add: plain_os_def void_os_def)
  have n: "normpath plain_os ''/r'' = ''/r''"
    by (simp add: plain_os_def void_os_def)
  have 1: "populate_nodes plain_os plain_form {''env''} {} ''/r'' [''.py'']
     = ({''/r''}, listing_nodes plain_os plain_form {''env''} ''/r'' [''.py''] [''lib'', ''a.py''])"
    using populate_nodes_new[OF r, of "{}" plain_form "{''env''}" "[''.py'']"] d n by simp
  have 2: "populate_nodes plain_os plain_form {''env''} {''/r''} ''/r'' [''.py'']
       = ({''/r''}, [skipped_marker])"
    using populate_nodes_seen[OF r, of "{''/r''}" plain_form "{''env''}" "[''.py'']"] by simp
  show ?thesis unfolding 1 using l 2 plain_listing by simp
qed

subsection \<open>SelectionStateMachine\<close>

lemma sel_inv_no_excluded: "sel_inv s \<Longrightarrow> no_excluded_checked s"
  by (simp add: sel_inv_def sel_inv_on_def no_excluded_checked_def)

lemma loop_nodes_ok:
  assumes "\<And>item nodes. body item = Some nodes \<Longrightarrow> \<forall>n \<in> set nodes. P n"
  shows "\<forall>n \<in> set (fst (loop_nodes body items)). P n"
proof (induction items)
  case Nil
  show ?case by simp
next
  case (Cons item items)
  show ?case
  proof (cases "body item")
    case None
    then show ?thesis by simp
  next
    case (Some nodes)
    then show ?thesis
      using assms[OF Some] Cons.IH by (auto split: prod.splits)
  qed
qed

lemma folder_nodes_ok:
  "folder_nodes sys f pats path item = Some nodes \<Longrightarrow> \<forall>n \<in> set nodes. spec_ok n"
  by (auto simp: folder_nodes_def spec_ok_def Let_def split: sum.splits option.splits if_splits)

lemma file_nodes_ok:
  "file_nodes sys f pats path exts item = Some nodes \<Longrightarrow> \<forall>n \<in> set nodes. spec_ok n"
  by (auto simp: file_nodes_def spec_ok_def Let_def split: sum.splits option.splits if_splits)

lemma listing_nodes_ok:
  "\<forall>n \<in> set (listing_nodes sys f pats path exts items). spec_ok n"
proof -
  have 1: "\<forall>n \<in> set (fst (loop_nodes (folder_nodes sys f pats path) (sort items))). spec_ok n"
    by (rule loop_nodes_ok) (rule folder_nodes_ok)
  have 2: "\<forall>n \<in> set (fst (loop_nodes (file_nodes sys f pats path exts) (sort items))). spec_ok n"
    by (rule loop_nodes_ok) (rule file_nodes_ok)
  obtain folders finished
    where l: "loop_nodes (folder_nodes sys f pats path) (sort items) = (folders, finished)"
    by (cases "loop_nodes (folder_nodes sys f pats path) (sort items)")
  show ?thesis
    using 1 2 unfolding listing_nodes_def l by (cases finished) auto
qed

lemma populate_nodes_ok:
  "\<forall>n \<in> set (snd (populate_nodes sys f pats visited path exts)). spec_ok n"
  using listing_nodes_ok
  by (auto simp: populate_nodes_def Let_def skipped_marker_def spec_ok_def
      split: prod.splits bool.splits option.splits)

lemma tk_insert1_inv:
  assumes "tk_insert1 parent spec s = Some (new, s')"
    and "sel_inv s" and "spec_ok spec"
    and "\<And>q. parent = Some q \<Longrightarrow> \<not> has_tag s q ''dummy''"
  shows "sel_inv s'
       \<and> tree s new = None
       \<and> tree s' new = Some \<lparr>caption = ins_text spec, cellv = ins_value spec,
            tags = ins_tags spec, opened = False, kids = []\<rparr>
       \<and> (\<forall>j t. j \<noteq> new \<longrightarrow> has_tag s' j t = has_tag s j t)
       \<and> (\<forall>j. tree s j \<noteq> None \<longrightarrow> tree s' j \<noteq> None)
       \<and> checked_items s' = checked_items s"
proof -
  let ?new = "case ins_iid spec of Some p \<Rightarrow> PathId p | None \<Rightarrow> AutoId (next_auto s)"
  let ?it = "\<lparr>caption = ins_text spec, cellv = ins_value spec,
            tags = ins_tags spec, opened = False, kids = []\<rparr>"
  from assms(1) have new: "new = ?new" and fresh: "tree s new = None"
    and par: "\<And>q. parent = Some q \<Longrightarrow> tree s q \<noteq> None"
    by (auto simp: tk_insert1_def Let_def split: if_splits option.splits)
  have ne: "\<And>q. parent = Some q \<Longrightarrow> q \<noteq> new" using par fresh by auto
  have t': "tree s' = (case parent of
                None \<Rightarrow> (tree s)(new \<mapsto> ?it)
              | Some q \<Rightarrow> (\<lambda>j. if j = q then map_option (\<lambda>it. it\<lparr>kids := kids it @ [new]\<rparr>) (tree s q)
                               else ((tree s)(new \<mapsto> ?it)) j))"
    using assms(1) ne
    by (auto simp: tk_insert1_def Let_def attach_def fun_eq_iff split: if_splits option.splits)
  have c': "checked_items s' = checked_items s"
    using assms(1)
    by (auto simp: tk_insert1_def Let_def attach_def split: if_splits option.splits)
  have new': "tree s' new = Some ?it"
    using t' ne by (auto split: option.splits)
  have tags': "\<And>j it. j \<noteq> new \<Longrightarrow> tree s' j = Some it \<Longrightarrow>
                 \<exists>it0. tree s j = Some it0 \<and> tags it = tags it0
                   \<and> (kids it = kids it0 \<or> parent = Some j)"
    using t' by (auto split: option.splits if_splits)
  have tags0: "\<And>j it0. j \<noteq> new \<Longrightarrow> tree s j = Some it0 \<Longrightarrow>
                 \<exists>it. tree s' j = Some it \<and> tags it = tags it0"
    using t' by (auto split: option.splits if_splits)
  have ht: "\<forall>j t. j \<noteq> new \<longrightarrow> has_tag s' j t = has_tag s j t"
  proof (intro allI impI)
    fix j t assume jn: "j \<noteq> new"
    show "has_tag s' j t = has_tag s j t"
    proof (cases "tree s j")
      case None
      then have "tree s' j = None" using tags'[OF jn] by (cases "tree s' j") auto
      then show ?thesis using None by (simp add: has_tag_def)
    next
      case (Some it0)
      then show ?thesis using tags0[OF jn Some] by (auto simp: has_tag_def)
    qed
  qed
  have keep: "\<forall>j. tree s j \<noteq> None \<longrightarrow> tree s' j \<noteq> None"
    using tags0 fresh by (metis option.exhaust option.simps(3))
  have inv: "sel_inv_on (tree s) (checked_items s)" using assms(2) by (simp add: sel_inv_def)
  have d: "dummies_kept_apart (tree s')"
    unfolding dummies_kept_apart_def
  proof (intro allI impI)
    fix j it assume a: "tree s' j = Some it \<and> ''dummy'' \<in> set (tags it)"
    show "(\<exists>n. j = AutoId n) \<and> kids it = [] \<and> ''folder'' \<notin> set (tags it)"
    proof (cases "j = new")
      case True
      then have "it = ?it" using a new' by simp
      then show ?thesis
        using a assms(3) True new by (auto simp: spec_ok_def split: option.splits)
    next
      case False
      then obtain it0 where it0: "tree s j = Some it0" "tags it = tags it0"
        "kids it = kids it0 \<or> parent = Some j"
        using tags' a by blast
      then have dj: "(\<exists>n. j = AutoId n) \<and> kids it0 = [] \<and> ''folder'' \<notin> set (tags it0)"
        using inv a by (auto simp: sel_inv_on_def dummies_kept_apart_def)
      have "parent \<noteq> Some j"
        using assms(4)[of j] it0 a by (auto simp: has_tag_def)
      then show ?thesis using dj it0 by auto
    qed
  qed
  have p: "\<forall>p. PathId p \<in> checked_items s' \<longrightarrow> tree s' (PathId p) \<noteq> None"
  proof (intro allI impI)
    fix p assume "PathId p \<in> checked_items s'"
    then have "tree s (PathId p) \<noteq> None" using inv c' by (auto simp: sel_inv_on_def)
    then show "tree s' (PathId p) \<noteq> None"
      using tags0[of "PathId p"] fresh by (cases "PathId p = new") auto
  qed
  have k: "\<forall>i \<in> checked_items s'. \<forall>it. tree s' i = Some it \<longrightarrow> ''excluded'' \<notin> set (tags it)"
  proof (intro ballI allI impI)
    fix i it assume i: "i \<in> checked_items s'" and it: "tree s' i = Some it"
    show "''excluded'' \<notin> set (tags it)"
    proof (cases "i = new")
      case True
      have "ins_iid spec = None"
      proof (rule ccontr)
        assume "ins_iid spec \<noteq> None"
        then obtain p where "new = PathId p" using new by auto
        then show False using inv i c' True fresh by (auto simp: sel_inv_on_def)
      qed
      then show ?thesis using assms(3) it new' True by (auto simp: spec_ok_def)
    next
      case False
      then obtain it0 where "tree s i = Some it0" "tags it = tags it0"
        using tags' it by blast
      then show ?thesis using inv i c' by (auto simp: sel_inv_on_def)
    qed
  qed
  have "sel_inv s'" unfolding sel_inv_def sel_inv_on_def using d p k by blast
  then show ?thesis using fresh new' ht keep c' by blast
qed

lemma sel_inv_cong:
  "tree s' = tree s \<Longrightarrow> checked_items s' = checked_items s \<Longrightarrow> sel_inv s' = sel_inv s"
  by (simp add: sel_inv_def)

lemma has_tag_cong: "tree s' = tree s \<Longrightarrow> has_tag s' i t = has_tag s i t"
  by (simp add: has_tag_def)

lemma dummy_child_ok: "spec_ok dummy_child"
  by (simp add: spec_ok_def dummy_child_def)

lemma tk_insert_inv:
  assumes "tk_insert parent spec s = Some s'"
    and "sel_inv s" and "spec_ok spec"
    and "\<And>q. parent = Some q \<Longrightarrow> \<not> has_tag s q ''dummy''"
  shows "sel_inv s'
       \<and> (\<forall>j t. tree s j \<noteq> None \<longrightarrow> has_tag s' j t = has_tag s j t)
       \<and> (\<forall>j. tree s j \<noteq> None \<longrightarrow> tree s' j \<noteq> None)
       \<and> checked_items s' = checked_items s"
proof -
  from assms(1) obtain new s1 where 1: "tk_insert1 parent spec s = Some (new, s1)"
    by (auto simp: tk_insert_def split: option.splits)
  note a = tk_insert1_inv[OF 1 assms(2) assms(3) assms(4)]
  show ?thesis
  proof (cases "ins_dummy spec")
    case False
    then have e: "s' = s1" using assms(1) 1 by (simp add: tk_insert_def)
    have "\<forall>j t. tree s j \<noteq> None \<longrightarrow> has_tag s1 j t = has_tag s j t"
    proof (intro allI impI)
      fix j t assume j: "tree s j \<noteq> None"
      then have jn: "j \<noteq> new" using a by auto
      then show "has_tag s1 j t = has_tag s j t" using a by blast
    qed
    then show ?thesis unfolding e using a by blast
  next
    case True
    then obtain d where 2: "tk_insert1 (Some new) dummy_child s1 = Some (d, s')"
      using assms(1) 1 by (auto simp: tk_insert_def)
    have "''dummy'' \<notin> set (ins_tags spec)" using assms(3) True by (auto simp: spec_ok_def)
    then have nd: "\<And>q. Some new = Some q \<Longrightarrow> \<not> has_tag s1 q ''dummy''"
      using a by (simp add: has_tag_def)
    have s1: "sel_inv s1" using a by blast
    note b = tk_insert1_inv[OF 2 s1 dummy_child_ok nd]
    have "\<forall>j t. tree s j \<noteq> None \<longrightarrow> has_tag s' j t = has_tag s j t"
    proof (intro allI impI)
      fix j t assume j: "tree s j \<noteq> None"
      then have jn: "j \<noteq> new" using a by auto
      have "tree s1 j \<noteq> None" using a j by blast
      then have "j \<noteq> d" using b by auto
      then show "has_tag s' j t = has_tag s j t" using a b jn by simp
    qed
    then show ?thesis using a b by auto
  qed
qed

lemma insert_all_inv:
  assumes "sel_inv s" and "\<forall>spec \<in> set specs. spec_ok spec"
    and "\<And>q. parent = Some q \<Longrightarrow> \<not> has_tag s q ''dummy''"
  shows "sel_inv (insert_all parent specs s)"
  using assms
proof (induction specs arbitrary: s)
  case Nil
  then show ?case by simp
next
  case (Cons spec specs)
  show ?case
  proof (cases "tk_insert parent spec s")
    case None
    then show ?thesis using Cons.prems by simp
  next
    case (Some s')
    have ok: "spec_ok spec" using Cons.prems(2) by simp
    note a = tk_insert_inv[OF Some Cons.prems(1) ok Cons.prems(3)]
    have par: "\<And>q. parent = Some q \<Longrightarrow> \<not> has_tag s' q ''dummy''"
    proof -
      fix q assume q: "parent = Some q"
      have "tree s q \<noteq> None"
        using Some q by (auto simp: tk_insert_def tk_insert1_def Let_def split: option.splits if_splits)
      then show "\<not> has_tag s' q ''dummy''" using a Cons.prems(3)[OF q] by simp
    qed
    have "sel_inv (insert_all parent specs s')"
      using Cons.IH[of s'] a Cons.prems(2) par by simp
    then show ?thesis using Some by simp
  qed
qed

lemma populate_tree_inv:
  assumes "sel_inv s" and "\<And>q. parent = Some q \<Longrightarrow> \<not> has_tag s q ''dummy''"
  shows "sel_inv (populate_tree sys parent path exts s)"
proof -
  obtain visited nodes
    where p: "populate_nodes sys (self_form s) (self_exclude_patterns s) (visited_paths s) path exts
                = (visited, nodes)"
    by (cases "populate_nodes sys (self_form s) (self_exclude_patterns s) (visited_paths s) path exts")
  have ok: "\<forall>spec \<in> set nodes. spec_ok spec"
    using populate_nodes_ok[of sys "self_form s" "self_exclude_patterns s" "visited_paths s" path exts] p
    by simp
  have 1: "sel_inv (s\<lparr>visited_paths := visited\<rparr>)"
    using assms(1) by (simp add: sel_inv_def)
  have 2: "\<And>q. parent = Some q \<Longrightarrow> \<not> has_tag (s\<lparr>visited_paths := visited\<rparr>) q ''dummy''"
    using assms(2) by (simp add: has_tag_def)
  show ?thesis
    unfolding populate_tree_def p using insert_all_inv[OF 1 ok 2] by simp
qed

lemma tk_delete_inv:
  assumes "sel_inv s" and "has_tag s i ''dummy''"
  shows "sel_inv (tk_delete i s)
       \<and> (\<forall>j t. j \<noteq> i \<longrightarrow> has_tag (tk_delete i s) j t = has_tag s j t)"
proof -
  have t: "\<And>j. tree (tk_delete i s) j
             = (if j = i then None
                else map_option (\<lambda>it. it\<lparr>kids := removeAll i (kids it)\<rparr>) (tree s j))"
    by (simp add: tk_delete_def)
  have c: "checked_items (tk_delete i s) = checked_items s"
    by (simp add: tk_delete_def)
  have auto_i: "\<exists>n. i = AutoId n"
    using assms by (auto simp: sel_inv_def sel_inv_on_def dummies_kept_apart_def has_tag_def
        split: option.splits)
  have ht: "\<forall>j t. j \<noteq> i \<longrightarrow> has_tag (tk_delete i s) j t = has_tag s j t"
    by (auto simp: has_tag_def t split: option.splits)
  have "sel_inv_on (tree (tk_delete i s)) (checked_items s)"
    using assms(1) auto_i unfolding sel_inv_def sel_inv_on_def dummies_kept_apart_def t
    by (auto split: if_splits)
  then show ?thesis using ht c by (simp add: sel_inv_def)
qed

lemma delete_dummies_inv:
  assumes "sel_inv s" and "\<not> has_tag s item ''dummy''"
  shows "sel_inv (fold (\<lambda>child s'. if has_tag s' child ''dummy'' then tk_delete child s' else s') cs s)
       \<and> \<not> has_tag (fold (\<lambda>child s'. if has_tag s' child ''dummy'' then tk_delete child s' else s') cs s)
              item ''dummy''"
  using assms
proof (induction cs arbitrary: s)
  case Nil
  then show ?case by simp
next
  case (Cons c cs)
  show ?case
  proof (cases "has_tag s c ''dummy''")
    case False
    then show ?thesis using Cons.IH[of s] Cons.prems by simp
  next
    case True
    then have ne: "item \<noteq> c" using Cons.prems(2) by auto
    have "sel_inv (tk_delete c s) \<and> \<not> has_tag (tk_delete c s) item ''dummy''"
      using tk_delete_inv[OF Cons.prems(1) True] ne Cons.prems(2) by simp
    then show ?thesis using Cons.IH[of "tk_delete c s"] True by simp
  qed
qed

lemma populate_if_needed_inv:
  assumes "sel_inv s" and "\<not> has_tag s item ''dummy''"
  shows "sel_inv (populate_if_needed sys item s)"
proof -
  let ?d = "fold (\<lambda>child s'. if has_tag s' child ''dummy'' then tk_delete child s' else s')
              (children s item) s"
  have d: "sel_inv ?d \<and> \<not> has_tag ?d item ''dummy''"
    by (rule delete_dummies_inv[OF assms])
  have "sel_inv (populate_tree sys (Some item) (iid_path sys item) (entry_extensions (self_form s)) ?d)"
    by (rule populate_tree_inv) (use d in auto)
  then show ?thesis using assms(1) by (simp add: populate_if_needed_def Let_def)
qed

lemma set_text_tree:
  "tree (set_text i t s) j
     = (if j = i then map_option (\<lambda>it. it\<lparr>caption := t\<rparr>) (tree s i) else tree s j)"
  by (simp add: set_text_def)

lemma set_opened_tree:
  "tree (set_opened i b s) j
     = (if j = i then map_option (\<lambda>it. it\<lparr>opened := b\<rparr>) (tree s i) else tree s j)"
  by (simp add: set_opened_def)

lemma set_text_has_tag [simp]: "has_tag (set_text i t s) j x = has_tag s j x"
  by (auto simp: has_tag_def set_text_tree split: option.splits)

lemma set_opened_has_tag [simp]: "has_tag (set_opened i b s) j x = has_tag s j x"
  by (auto simp: has_tag_def set_opened_tree split: option.splits)

lemma has_tag_checked [simp]: "has_tag (s\<lparr>checked_items := c\<rparr>) j x = has_tag s j x"
  by (simp add: has_tag_def)

lemma set_text_checked [simp]: "checked_items (set_text i t s) = checked_items s"
  by (simp add: set_text_def)

lemma set_opened_checked [simp]: "checked_items (set_opened i b s) = checked_items s"
  by (simp add: set_opened_def)

lemma sel_inv_on_tags:
  assumes "sel_inv_on t c"
    and "\<And>j. (t' j = None) = (t j = None)"
    and "\<And>j it'. t' j = Some it' \<Longrightarrow> \<exists>it. t j = Some it \<and> tags it' = tags it \<and> kids it' = kids it"
  shows "sel_inv_on t' c"
  unfolding sel_inv_on_def dummies_kept_apart_def
proof (intro conjI allI impI ballI)
  fix i it' assume a: "t' i = Some it' \<and> ''dummy'' \<in> set (tags it')"
  then obtain it where "t i = Some it" "tags it' = tags it" "kids it' = kids it"
    using assms(3) by blast
  then show "\<exists>n. i = AutoId n" "kids it' = []" "''folder'' \<notin> set (tags it')"
    using assms(1) a by (auto simp: sel_inv_on_def dummies_kept_apart_def)
next
  fix p assume "PathId p \<in> c"
  then show "t' (PathId p) \<noteq> None"
    using assms(1) assms(2) by (auto simp: sel_inv_on_def)
next
  fix i it' assume "i \<in> c" "t' i = Some it'"
  moreover then obtain it where "t i = Some it" "tags it' = tags it"
    using assms(3) by blast
  ultimately show "''excluded'' \<notin> set (tags it')"
    using assms(1) by (auto simp: sel_inv_on_def)
qed

lemma set_text_inv [simp]: "sel_inv (set_text i t s) = sel_inv s"
proof
  assume "sel_inv s"
  then show "sel_inv (set_text i t s)"
    unfolding sel_inv_def set_text_checked
    by (rule sel_inv_on_tags) (auto simp: set_text_tree split: if_splits)
next
  assume "sel_inv (set_text i t s)"
  then show "sel_inv s"
    unfolding sel_inv_def set_text_checked
    by (rule sel_inv_on_tags) (auto simp: set_text_tree split: if_splits)
qed

lemma set_opened_inv [simp]: "sel_inv (set_opened i b s) = sel_inv s"
proof
  assume "sel_inv s"
  then show "sel_inv (set_opened i b s)"
    unfolding sel_inv_def set_opened_checked
    by (rule sel_inv_on_tags) (auto simp: set_opened_tree split: if_splits)
next
  assume "sel_inv (set_opened i b s)"
  then show "sel_inv s"
    unfolding sel_inv_def set_opened_checked
    by (rule sel_inv_on_tags) (auto simp: set_opened_tree split: if_splits)
qed

lemma check_one_inv:
  assumes "sel_inv s" and "tree s item = Some it" and "''excluded'' \<notin> set (tags it)"
  shows "sel_inv (s\<lparr>checked_items := insert item (checked_items s)\<rparr>)"
  using assms unfolding sel_inv_def sel_inv_on_def by auto

lemma uncheck_inv:
  assumes "sel_inv s" and "c \<subseteq> checked_items s"
  shows "sel_inv (s\<lparr>checked_items := c\<rparr>)"
  using assms unfolding sel_inv_def sel_inv_on_def by auto

lemma calculate_inv [simp]:
  "sel_inv (calculate_tokens_for_directory sys d s) = sel_inv s"
  by (simp add: calculate_tokens_for_directory_def sel_inv_def)

lemma update_total_tokens_inv: "sel_inv s \<Longrightarrow> sel_inv (update_total_tokens s)"
  unfolding update_total_tokens_def by (rule uncheck_inv) auto

lemma for_each_inv:
  assumes "\<And>i s. sel_inv s \<Longrightarrow> sel_inv (snd (body i s))" and "sel_inv s"
  shows "sel_inv (snd (for_each body is s))"
  using assms(2)
proof (induction "is" arbitrary: s)
  case Nil
  then show ?case by simp
next
  case (Cons i "is")
  obtain ok s' where b: "body i s = (ok, s')" by (cases "body i s")
  have "sel_inv s'" using assms(1)[OF Cons.prems, of i] b by simp
  then show ?case using Cons.IH[of s'] b by (cases ok) auto
qed

lemma check_item_and_children_inv:
  "sel_inv s \<Longrightarrow> sel_inv (snd (check_item_and_children sys depth skip item s))"
proof (induction depth arbitrary: item s)
  case 0
  then show ?case by simp
next
  case (Suc depth)
  show ?case
  proof (cases "tree s item")
    case None
    then show ?thesis using Suc.prems by simp
  next
    case (Some it)
    show ?thesis
    proof (cases "''excluded'' \<in> set (tags it)")
      case True
      then show ?thesis using Some Suc.prems by simp
    next
      case False
      let ?s1 = "set_text item (box_checked @ '' '' @ slice2 (caption it)) s"
      let ?s2 = "?s1\<lparr>checked_items := insert item (checked_items ?s1)\<rparr>"
      let ?s4 = "populate_if_needed sys item (set_opened item True ?s2)"
      let ?s3 = "(if ''folder'' \<in> set (tags it) then
                         (if \<not> skip \<and> iid_path sys item \<notin> calculated_directories ?s4
                          then calculate_tokens_for_directory sys (iid_path sys item) ?s4
                          else ?s4)
                       else ?s2)"
      have t1: "tree ?s1 item = Some (it\<lparr>caption := box_checked @ '' '' @ slice2 (caption it)\<rparr>)"
        using Some by (simp add: set_text_tree)
      have i2: "sel_inv ?s2"
        by (rule check_one_inv[OF _ t1]) (use Suc.prems False in auto)
      have nd: "''folder'' \<in> set (tags it) \<Longrightarrow> \<not> has_tag (set_opened item True ?s2) item ''dummy''"
      proof -
        assume f: "''folder'' \<in> set (tags it)"
        have "''dummy'' \<notin> set (tags it)"
          using Suc.prems Some f by (auto simp: sel_inv_def sel_inv_on_def dummies_kept_apart_def)
        then have "\<not> has_tag s item ''dummy''" using Some by (simp add: has_tag_def)
        then show ?thesis by simp
      qed
      have i3: "sel_inv ?s3"
        using i2 nd populate_if_needed_inv[of "set_opened item True ?s2" item sys] by auto
      have "sel_inv (snd (for_each (\<lambda>child s'. check_item_and_children sys depth skip child s')
                  (children ?s3 item) ?s3))"
        by (rule for_each_inv) (use Suc.IH i3 in auto)
      then show ?thesis
        by (simp only: check_item_and_children.simps Some False option.case if_False Let_def)
    qed
  qed
qed

lemma uncheck_item_and_children_inv:
  "sel_inv s \<Longrightarrow> sel_inv (snd (uncheck_item_and_children depth item s))"
proof (induction depth arbitrary: item s)
  case 0
  then show ?case by simp
next
  case (Suc depth)
  show ?case
  proof (cases "tree s item")
    case None
    then show ?thesis using Suc.prems by simp
  next
    case (Some it)
    show ?thesis
    proof (cases "''excluded'' \<in> set (tags it)")
      case True
      then show ?thesis using Some Suc.prems by simp
    next
      case False
      let ?s1 = "set_text item (box_empty @ '' '' @ slice2 (caption it)) s"
      let ?s2 = "?s1\<lparr>checked_items := checked_items ?s1 - {item}\<rparr>"
      have i2: "sel_inv ?s2"
        by (rule uncheck_inv) (use Suc.prems in auto)
      have "sel_inv (snd (for_each (\<lambda>child s'. uncheck_item_and_children depth child s')
                  (children ?s2 item) ?s2))"
        by (rule for_each_inv) (use Suc.IH i2 in auto)
      then show ?thesis
        by (simp only: uncheck_item_and_children.simps Some False option.case if_False Let_def)
    qed
  qed
qed

lemma frame_refl [simp]: "frame s s"
  by (simp add: frame_def)

lemma frame_trans: "frame s s1 \<Longrightarrow> frame s1 s2 \<Longrightarrow> frame s s2"
  by (simp add: frame_def)

lemma frame_same_tree: "tree s' = tree s \<Longrightarrow> frame s s'"
  by (simp add: frame_def solid_def has_tag_def)

lemma tk_insert1_frame:
  assumes "tk_insert1 parent spec s = Some (new, s')"
  shows "frame s s'"
proof -
  from assms have fresh: "tree s new = None"
    by (auto simp: tk_insert1_def Let_def split: if_splits)
  have k: "\<And>j it0. j \<noteq> new \<Longrightarrow> tree s j = Some it0 \<Longrightarrow>
                 \<exists>it. tree s' j = Some it \<and> tags it = tags it0"
    using assms
    by (auto simp: tk_insert1_def Let_def attach_def split: if_splits option.splits)
  show ?thesis
    unfolding frame_def solid_def
  proof (intro allI impI)
    fix j assume a: "tree s j \<noteq> None \<and> \<not> has_tag s j ''dummy''"
    then obtain it0 where it0: "tree s j = Some it0" by auto
    then have "j \<noteq> new" using fresh by auto
    then obtain it where "tree s' j = Some it" "tags it = tags it0"
      using k it0 by blast
    then show "tree s' j \<noteq> None \<and> \<not> has_tag s' j ''dummy''"
      using a it0 by (simp add: has_tag_def)
  qed
qed

lemma tk_insert_frame:
  assumes "tk_insert parent spec s = Some s'"
  shows "frame s s'"
proof -
  from assms obtain new s1 where 1: "tk_insert1 parent spec s = Some (new, s1)"
    by (auto simp: tk_insert_def split: option.splits)
  show ?thesis
  proof (cases "ins_dummy spec")
    case False
    then have "s' = s1" using assms 1 by (simp add: tk_insert_def)
    then show ?thesis using tk_insert1_frame[OF 1] by simp
  next
    case True
    then obtain d where 2: "tk_insert1 (Some new) dummy_child s1 = Some (d, s')"
      using assms 1 by (auto simp: tk_insert_def)
    show ?thesis by (rule frame_trans[OF tk_insert1_frame[OF 1] tk_insert1_frame[OF 2]])
  qed
qed

lemma insert_all_frame: "frame s (insert_all parent specs s)"
proof (induction specs arbitrary: s)
  case Nil
  show ?case by simp
next
  case (Cons spec specs)
  show ?case
  proof (cases "tk_insert parent spec s")
    case None
    then show ?thesis by simp
  next
    case (Some s')
    then show ?thesis
      using frame_trans[OF tk_insert_frame[OF Some] Cons.IH[of s']] by simp
  qed
qed

lemma populate_tree_frame: "frame s (populate_tree sys parent path exts s)"
proof -
  obtain visited nodes
    where p: "populate_nodes sys (self_form s) (self_exclude_patterns s) (visited_paths s) path exts
                = (visited, nodes)"
    by (cases "populate_nodes sys (self_form s) (self_exclude_patterns s) (visited_paths s) path exts")
  have "frame s (s\<lparr>visited_paths := visited\<rparr>)" by (rule frame_same_tree) simp
  then show ?thesis
    unfolding populate_tree_def p
    using frame_trans insert_all_frame by fastforce
qed

lemma tk_delete_frame: "has_tag s i ''dummy'' \<Longrightarrow> frame s (tk_delete i s)"
  unfolding frame_def solid_def has_tag_def tk_delete_def
  by (auto split: option.splits)

lemma delete_dummies_frame:
  "frame s (fold (\<lambda>child s'. if has_tag s' child ''dummy'' then tk_delete child s' else s') cs s)"
proof (induction cs arbitrary: s)
  case Nil
  show ?case by simp
next
  case (Cons c cs)
  show ?case
  proof (cases "has_tag s c ''dummy''")
    case False
    then show ?thesis using Cons.IH[of s] by simp
  next
    case True
    then show ?thesis
      using frame_trans[OF tk_delete_frame[OF True] Cons.IH[of "tk_delete c s"]] by simp
  qed
qed

lemma populate_if_needed_frame: "frame s (populate_if_needed sys item s)"
  unfolding populate_if_needed_def Let_def
  using frame_trans[OF delete_dummies_frame populate_tree_frame] by simp

lemma frame_tags:
  assumes "\<And>j t. has_tag s' j t = has_tag s j t" and "\<And>j. (tree s' j = None) = (tree s j = None)"
  shows "frame s s'"
  using assms by (simp add: frame_def solid_def)

lemma set_text_frame: "frame s (set_text i t s)"
  by (rule frame_tags) (auto simp: set_text_tree)

lemma set_opened_frame: "frame s (set_opened i b s)"
  by (rule frame_tags) (auto simp: set_opened_tree)

lemma for_each_frame:
  assumes "\<And>i s. frame s (snd (body i s))"
  shows "frame s (snd (for_each body is s))"
proof (induction "is" arbitrary: s)
  case Nil
  show ?case by simp
next
  case (Cons i "is")
  obtain ok s' where b: "body i s = (ok, s')" by (cases "body i s")
  have 1: "frame s s'" using assms[of s i] b by simp
  show ?case using frame_trans[OF 1 Cons.IH[of s']] 1 b by (cases ok) auto
qed

lemma check_item_and_children_frame:
  "frame s (snd (check_item_and_children sys depth skip item s))"
proof (induction depth arbitrary: item s)
  case 0
  show ?case by simp
next
  case (Suc depth)
  show ?case
  proof (cases "tree s item")
    case None
    then show ?thesis by simp
  next
    case (Some it)
    show ?thesis
    proof (cases "''excluded'' \<in> set (tags it)")
      case True
      then show ?thesis using Some by simp
    next
      case False
      let ?s1 = "set_text item (box_checked @ '' '' @ slice2 (caption it)) s"
      let ?s2 = "?s1\<lparr>checked_items := insert item (checked_items ?s1)\<rparr>"
      let ?s4 = "populate_if_needed sys item (set_opened item True ?s2)"
      let ?s3 = "(if ''folder'' \<in> set (tags it) then
                         (if \<not> skip \<and> iid_path sys item \<notin> calculated_directories ?s4
                          then calculate_tokens_for_directory sys (iid_path sys item) ?s4
                          else ?s4)
                       else ?s2)"
      have f2: "frame s ?s2"
        by (rule frame_trans[OF set_text_frame]) (rule frame_same_tree, simp)
      have f4: "frame s ?s4"
        by (rule frame_trans[OF f2]) (rule frame_trans[OF set_opened_frame populate_if_needed_frame])
      have fc: "frame ?s4 (calculate_tokens_for_directory sys (iid_path sys item) ?s4)"
        by (rule frame_same_tree) (simp add: calculate_tokens_for_directory_def)
      have f3: "frame s ?s3"
        using f2 f4 frame_trans[OF f4 fc] by simp
      have "frame ?s3 (snd (for_each (\<lambda>child s'. check_item_and_children sys depth skip child s')
                  (children ?s3 item) ?s3))"
        by (rule for_each_frame) (rule Suc.IH)
      then have "frame s (snd (for_each (\<lambda>child s'. check_item_and_children sys depth skip child s')
                  (children ?s3 item) ?s3))"
        by (rule frame_trans[OF f3])
      then show ?thesis
        by (simp only: check_item_and_children.simps Some False option.case if_False Let_def)
    qed
  qed
qed

lemma sel_inv_dummy_not_folder:
  "sel_inv s \<Longrightarrow> tree s item = Some it \<Longrightarrow> ''folder'' \<in> set (tags it)
   \<Longrightarrow> \<not> has_tag s item ''dummy''"
  by (auto simp: sel_inv_def sel_inv_on_def dummies_kept_apart_def has_tag_def)

lemma handle_click_inv: "sel_inv s \<Longrightarrow> sel_inv (handle_click sys depth target s)"
proof (cases target)
  case None
  assume "sel_inv s"
  then show ?thesis using None by (simp add: handle_click_def update_total_tokens_inv)
next
  case (Some item)
  assume inv: "sel_inv s"
  show ?thesis
  proof (cases "tree s item")
    case None
    then show ?thesis using Some inv by (simp add: handle_click_def)
  next
    case it: (Some it)
    obtain ok1 s1 where c: "check_item_and_children sys depth True item s = (ok1, s1)"
      by (cases "check_item_and_children sys depth True item s")
    obtain ok2 s2 where u: "uncheck_item_and_children depth item s = (ok2, s2)"
      by (cases "uncheck_item_and_children depth item s")
    have i1: "sel_inv s1" using check_item_and_children_inv[OF inv, of sys depth True item] c by simp
    have i2: "sel_inv s2" using uncheck_item_and_children_inv[OF inv, of depth item] u by simp
    have i3: "''folder'' \<in> set (tags it) \<Longrightarrow> sel_inv (populate_if_needed sys item s)"
      using populate_if_needed_inv[OF inv] sel_inv_dummy_not_folder[OF inv it] by simp
    show ?thesis
      using Some it inv c u i1 i2 i3
      by (cases ok1; cases ok2) (simp_all add: handle_click_def update_total_tokens_inv Let_def)
  qed
qed

lemma on_folder_open_inv:
  "sel_inv s \<Longrightarrow> \<not> has_tag s item ''dummy'' \<Longrightarrow> sel_inv (on_folder_open sys item s)"
  by (cases "tree s item") (simp_all add: on_folder_open_def populate_if_needed_inv)

lemma on_folder_close_inv: "sel_inv s \<Longrightarrow> sel_inv (on_folder_close depth item s)"
proof -
  assume inv: "sel_inv s"
  obtain ok2 s2 where u: "uncheck_item_and_children depth item s = (ok2, s2)"
    by (cases "uncheck_item_and_children depth item s")
  have i2: "sel_inv s2" using uncheck_item_and_children_inv[OF inv, of depth item] u by simp
  show ?thesis
    using inv u i2
    by (cases "tree s item"; cases ok2) (simp_all add: on_folder_close_def update_total_tokens_inv)
qed

lemma for_each_acc_inv:
  assumes "\<And>i s a. sel_inv s \<Longrightarrow> sel_inv (fst (snd (body i (s, a))))" and "sel_inv s"
  shows "sel_inv (fst (snd (for_each_acc body is (s, a))))"
  using assms(2)
proof (induction "is" arbitrary: s a)
  case Nil
  then show ?case by simp
next
  case (Cons i "is")
  obtain ok s' a' where b: "body i (s, a) = (ok, s', a')" by (cases "body i (s, a)") auto
  have "sel_inv s'" using assms(1)[OF Cons.prems, of i a] b by simp
  then show ?case using Cons.IH[of s' a'] b by (cases ok) auto
qed

lemma expand_and_select_children_inv:
  "sel_inv s \<Longrightarrow> sel_inv (fst (snd (expand_and_select_children sys depth item (s, a))))"
proof (induction depth arbitrary: item s a)
  case 0
  then show ?case by simp
next
  case (Suc depth)
  show ?case
  proof (cases "tree s item")
    case None
    then show ?thesis using Suc.prems by simp
  next
    case (Some it)
    show ?thesis
    proof (cases "''excluded'' \<in> set (tags it)")
      case True
      then show ?thesis using Some Suc.prems by simp
    next
      case False
      obtain ok1 s1 where c: "check_item_and_children sys depth True item s = (ok1, s1)"
        by (cases "check_item_and_children sys depth True item s")
      have i1: "sel_inv s1"
        using check_item_and_children_inv[OF Suc.prems, of sys depth True item] c by simp
      show ?thesis
      proof (cases "ok1 \<and> ''folder'' \<in> set (tags it)")
        case False
        then show ?thesis using Some \<open>''excluded'' \<notin> set (tags it)\<close> c i1 by (cases ok1) auto
      next
        case True
        let ?s2 = "populate_if_needed sys item (set_opened item True s1)"
        let ?folders = "(if iid_path sys item \<notin> calculated_directories ?s2
                                   then a @ [iid_path sys item] else a)"
        have "solid s item"
          using sel_inv_dummy_not_folder[OF Suc.prems Some] True Some by (simp add: solid_def)
        then have "solid s1 item"
          using check_item_and_children_frame[of s sys depth True item] c by (simp add: frame_def)
        then have nd: "\<not> has_tag (set_opened item True s1) item ''dummy''"
          by (simp add: solid_def)
        have i2: "sel_inv ?s2"
          by (rule populate_if_needed_inv[OF _ nd]) (use i1 in simp)
        have "sel_inv (fst (snd (for_each_acc
                         (\<lambda>child sa. expand_and_select_children sys depth child sa)
                         (children ?s2 item) (?s2, ?folders))))"
          by (rule for_each_acc_inv) (use Suc.IH i2 in auto)
        then show ?thesis
          using True
          by (simp only: expand_and_select_children.simps Some \<open>''excluded'' \<notin> set (tags it)\<close>
              option.case if_False if_True c prod.case bool.case Let_def)
      qed
    qed
  qed
qed

lemma start_calculations_inv [simp]:
  "sel_inv (start_calculations sys folders s) = sel_inv s"
  by (induction folders arbitrary: s) auto

lemma expand_all_folders_inv: "sel_inv s \<Longrightarrow> sel_inv (expand_all_folders sys depth s)"
proof -
  assume inv: "sel_inv s"
  let ?s1 = "s\<lparr>checked_items := {}, pending_calculations := Some 0,
                    calculation_results := Map.empty, cancel_operation := False\<rparr>"
  have i1: "sel_inv ?s1" using inv unfolding sel_inv_def sel_inv_on_def by simp
  obtain ok s2 folders
    where e: "for_each_acc (\<lambda>item sa. expand_and_select_children sys depth item sa)
                (root_kids ?s1) (?s1, []) = (ok, s2, folders)"
    by (cases "for_each_acc (\<lambda>item sa. expand_and_select_children sys depth item sa)
                (root_kids ?s1) (?s1, [])") auto
  have "sel_inv (fst (snd (for_each_acc (\<lambda>item sa. expand_and_select_children sys depth item sa)
                (root_kids ?s1) (?s1, []))))"
    by (rule for_each_acc_inv) (use expand_and_select_children_inv i1 in auto)
  then have i2: "sel_inv s2" using e by simp
  have i3: "sel_inv (s2\<lparr>pending_calculations := Some (length folders)\<rparr>)"
    using i2 by (simp add: sel_inv_def)
  show ?thesis
    unfolding expand_all_folders_def Let_def e
    using inv i2 i3 by (cases ok) (simp_all add: update_total_tokens_inv)
qed

lemma collapse_and_deselect_inv:
  "sel_inv s \<Longrightarrow> sel_inv (snd (collapse_and_deselect depth item s))"
proof (induction depth arbitrary: item s)
  case 0
  then show ?case by simp
next
  case (Suc depth)
  show ?case
  proof (cases "tree s item")
    case None
    then show ?thesis using Suc.prems by simp
  next
    case (Some it)
    let ?s1 = "(if ''excluded'' \<notin> set (tags it) \<and> startswith (caption it) box_checked
                     then set_text item (box_empty @ '' '' @ slice2 (caption it)) s
                     else s)"
    have i1: "sel_inv ?s1" using Suc.prems by simp
    obtain ok s2 where f: "for_each (\<lambda>child s'. collapse_and_deselect depth child s')
                        (children ?s1 item) ?s1 = (ok, s2)"
      by (cases "for_each (\<lambda>child s'. collapse_and_deselect depth child s')
                        (children ?s1 item) ?s1")
    have "sel_inv (snd (for_each (\<lambda>child s'. collapse_and_deselect depth child s')
                        (children ?s1 item) ?s1))"
      by (rule for_each_inv) (use Suc.IH i1 in auto)
    then have i2: "sel_inv s2" using f by simp
    show ?thesis
      unfolding collapse_and_deselect.simps Some option.case Let_def f
      using i1 i2 by (cases ok) simp_all
  qed
qed

lemma collapse_all_folders_inv: "sel_inv s \<Longrightarrow> sel_inv (collapse_all_folders depth s)"
proof -
  assume inv: "sel_inv s"
  let ?s1 = "s\<lparr>checked_items := {}\<rparr>"
  have i1: "sel_inv ?s1" by (rule uncheck_inv[OF inv]) simp
  obtain ok s2 where f: "for_each (\<lambda>item s'. collapse_and_deselect depth item s')
                           (root_kids ?s1) ?s1 = (ok, s2)"
    by (cases "for_each (\<lambda>item s'. collapse_and_deselect depth item s') (root_kids ?s1) ?s1")
  have "sel_inv (snd (for_each (\<lambda>item s'. collapse_and_deselect depth item s')
                           (root_kids ?s1) ?s1))"
    by (rule for_each_inv) (use collapse_and_deselect_inv i1 in auto)
  then have i2: "sel_inv s2" using f by simp
  show ?thesis
    unfolding collapse_all_folders_def Let_def f
    using inv i2 by (cases ok) (simp_all add: update_total_tokens_inv)
qed

lemma sel_inv_empty:
  "tree s = Map.empty \<Longrightarrow> checked_items s = {} \<Longrightarrow> sel_inv s"
  by (simp add: sel_inv_def sel_inv_on_def dummies_kept_apart_def)

lemma refresh_files_inv: "sel_inv s \<Longrightarrow> sel_inv (refresh_files sys s)"
proof -
  assume inv: "sel_inv s"
  let ?s0 = "s\<lparr>tree := Map.empty, root_kids := [], checked_items := {}, visited_paths := {}\<rparr>"
  have "sel_inv ?s0" by (rule sel_inv_empty) simp_all
  then have "sel_inv (populate_tree sys None (dir_entry (self_form s)) (entry_extensions (self_form s)) ?s0)"
    by (rule populate_tree_inv) simp
  then show ?thesis
    using inv by (simp add: refresh_files_def update_total_tokens_inv)
qed

lemma browse_directory_inv: "sel_inv s \<Longrightarrow> sel_inv (browse_directory sys d s)"
proof -
  assume inv: "sel_inv s"
  have "sel_inv (s\<lparr>self_form := (self_form s)\<lparr>dir_entry := d\<rparr>\<rparr>)" using inv by (simp add: sel_inv_def)
  then show ?thesis using inv by (simp add: browse_directory_def refresh_files_inv)
qed

lemma toggle_exclude_inv: "sel_inv s \<Longrightarrow> sel_inv (toggle_exclude sys s)"
proof -
  assume inv: "sel_inv s"
  let ?f = "(self_form s)\<lparr>exclude_enabled := \<not> exclude_enabled (self_form s)\<rparr>"
  have "sel_inv (s\<lparr>self_form := ?f,
                 self_exclude_patterns := (if exclude_enabled ?f then entry_patterns ?f else {}),
                 visited_paths := {}\<rparr>)"
    using inv by (simp add: sel_inv_def)
  then show ?thesis unfolding toggle_exclude_def Let_def by (rule refresh_files_inv)
qed

lemma worker_step_sel [simp]:
  "tree (worker_step sys k s) = tree s" "checked_items (worker_step sys k s) = checked_items s"
  by (auto simp: worker_step_def Let_def split: prod.splits)

lemma cleanup_sel [simp]:
  "tree (cleanup_calculation_ui s) = tree s"
  "checked_items (cleanup_calculation_ui s) = checked_items s"
  by (simp_all add: cleanup_calculation_ui_def)

lemma process_message_sel:
  "tree (snd (process_message m s)) = tree s
   \<and> checked_items (snd (process_message m s)) = checked_items s"
  by (cases m) (auto simp: Let_def split: option.splits)

lemma drain_sel:
  "tree (snd (drain ms s)) = tree s \<and> checked_items (snd (drain ms s)) = checked_items s"
proof (induction ms arbitrary: s)
  case Nil
  show ?case by simp
next
  case (Cons m ms)
  obtain ok s' where p: "process_message m (s\<lparr>token_queue := ms\<rparr>) = (ok, s')"
    by (cases "process_message m (s\<lparr>token_queue := ms\<rparr>)")
  have "tree s' = tree s \<and> checked_items s' = checked_items s"
    using process_message_sel[of m "s\<lparr>token_queue := ms\<rparr>"] p by simp
  then show ?case using Cons.IH[of s'] p by (cases ok) auto
qed

lemma check_token_queue_sel:
  "tree (check_token_queue s) = tree s \<and> checked_items (check_token_queue s) = checked_items s"
proof -
  obtain ok s' where d: "drain (token_queue s) s = (ok, s')"
    by (cases "drain (token_queue s) s")
  have "tree s' = tree s \<and> checked_items s' = checked_items s"
    using drain_sel[of "token_queue s" s] d by simp
  then show ?thesis
    unfolding check_token_queue_def d by (cases ok) auto
qed

lemma fire_inv: "sel_inv s \<Longrightarrow> sel_inv (fire sys depth e s)"
proof (cases e)
  case (EditEntries d f x)
  assume "sel_inv s" then show ?thesis using EditEntries by (simp add: sel_inv_def)
next
  case (Browse d)
  assume "sel_inv s" then show ?thesis using Browse by (simp add: browse_directory_inv)
next
  case ApplyFilter
  assume "sel_inv s" then show ?thesis using ApplyFilter by (simp add: refresh_files_inv)
next
  case ToggleExclude
  assume "sel_inv s" then show ?thesis using ToggleExclude by (simp add: toggle_exclude_inv)
next
  case (Click target)
  assume "sel_inv s" then show ?thesis using Click by (simp add: handle_click_inv)
next
  case (FolderOpen item)
  assume "sel_inv s" then show ?thesis using FolderOpen by (simp add: on_folder_open_inv)
next
  case (FolderClose item)
  assume "sel_inv s" then show ?thesis using FolderClose by (simp add: on_folder_close_inv)
next
  case ExpandAll
  assume "sel_inv s" then show ?thesis using ExpandAll by (simp add: expand_all_folders_inv)
next
  case CollapseAll
  assume "sel_inv s" then show ?thesis using CollapseAll by (simp add: collapse_all_folders_inv)
next
  case CancelClick
  assume "sel_inv s" then show ?thesis
    using CancelClick by (simp add: cancel_current_operation_def sel_inv_def)
next
  case (RequestTokens d)
  assume "sel_inv s" then show ?thesis
    using RequestTokens by (simp add: calculate_directory_tokens_def)
next
  case (WorkerStep k)
  assume "sel_inv s" then show ?thesis using WorkerStep by (simp add: sel_inv_def)
next
  case Poll
  assume "sel_inv s" then show ?thesis
    using Poll check_token_queue_sel[of s] by (simp add: sel_inv_def)
qed

lemma run_inv: "sel_inv s \<Longrightarrow> sel_inv (run sys depth events s)"
  unfolding run_def by (induction events arbitrary: s) (auto simp: fire_inv)

lemma initial_inv: "sel_inv initial"
  by (rule sel_inv_empty) (simp_all add: initial_def)

lemma initial_fields:
  "self_exclude_patterns initial = DEFAULT_EXCLUDE_PATTERNS" "visited_paths initial = {}"
  "tree initial = Map.empty" "root_kids initial = []" "next_auto initial = 0"
  "checked_items initial = {}" "calculated_directories initial = {}"
  "token_queue initial = []" "cancel_operation initial = False" "threads initial = []"
  "pending_calculations initial = None"
  by (simp_all add: initial_def)

lemma env_sort: "sort [''env'', ''a.py''] = [''a.py'', ''env'']"
  by simp

lemma env_extensions: "entry_extensions (self_form initial\<lparr>dir_entry := ''/r''\<rparr>) = [''.py'', ''.js'', ''.md'']"
  by (simp add: entry_extensions_def initial_def strip_def is_space_def)

lemma env_nodes:
  "populate_nodes env_os (self_form initial\<lparr>dir_entry := ''/r''\<rparr>) DEFAULT_EXCLUDE_PATTERNS {} ''/r''
       [''.py'', ''.js'', ''.md'']
     = ({''/r''},
        [\<lparr>ins_iid = Some ''/r/env'', ins_text = mark_excluded @ '' env'',
          ins_value = Str ''(excluded)'', ins_tags = [''folder'', ''excluded''], ins_dummy = True\<rparr>,
         \<lparr>ins_iid = Some ''/r/a.py'', ins_text = box_empty @ '' a.py'', ins_value = Num 1,
          ins_tags = [''file''], ins_dummy = False\<rparr>])"
  unfolding populate_nodes_def listing_nodes_def Let_def
  by (simp add: env_sort is_safe_path_def env_os_def void_os_def initial_def
      folder_nodes_def file_nodes_def
      should_exclude_def replace_chr_def backslash_def populate_matches_def endswith_def
      lower_def lower_chr_def count_tokens_in_file_def is_binary_file_def
      BINARY_EXTENSIONS_def DEFAULT_EXCLUDE_PATTERNS_def textchars_iff)

lemma browsed_facts:
  "tree browsed (PathId ''/r/env'')
     = Some \<lparr>caption = mark_excluded @ '' env'', cellv = Str ''(excluded)'',
             tags = [''folder'', ''excluded''], opened = False, kids = [AutoId 0]\<rparr>"
  "tree browsed (PathId ''/r/a.py'')
     = Some \<lparr>caption = box_empty @ '' a.py'', cellv = Num 1, tags = [''file''],
             opened = False, kids = []\<rparr>"
  "checked_items browsed = {}"
  unfolding browsed_def
  by (simp_all add: browse_directory_def refresh_files_def populate_tree_def env_extensions
      initial_fields
      env_nodes update_total_tokens_def tk_insert_def tk_insert1_def attach_def dummy_child_def
      Let_def)

text \<open>
  C3. After every sequence of events from the start of the application, no item with
  the tag \<open>excluded\<close> is in \<open>checked_items\<close>. A check of an excluded item changes
  nothing, a click on one changes nothing, and a check with its cascade keeps the
  invariant of the selection, whatever the folders it populates on its way.
\<close>

theorem excluded_never_checked:
  "no_excluded_checked (run sys depth events initial)
   \<and> (has_tag s item ''excluded'' \<longrightarrow>
        snd (check_item_and_children sys depth skip item s) = s)
   \<and> (has_tag s item ''excluded'' \<longrightarrow> handle_click sys depth (Some item) s = s)
   \<and> (sel_inv s \<longrightarrow>
        no_excluded_checked (snd (check_item_and_children sys depth skip item s)))"
proof (intro conjI impI)
  show "no_excluded_checked (run sys depth events initial)"
    by (rule sel_inv_no_excluded) (rule run_inv[OF initial_inv])
next
  assume "has_tag s item ''excluded''"
  then show "snd (check_item_and_children sys depth skip item s) = s"
    by (cases depth) (auto simp: has_tag_def split: option.splits)
next
  assume "has_tag s item ''excluded''"
  then show "handle_click sys depth (Some item) s = s"
    by (auto simp: handle_click_def has_tag_def split: option.splits)
next
  assume "sel_inv s"
  then show "no_excluded_checked (snd (check_item_and_children sys depth skip item s))"
    by (rule sel_inv_no_excluded[OF check_item_and_children_inv])
qed

lemma env_clicks:
  "run env_os 3 [Browse ''/r'', Click (Some (PathId ''/r/env'')), Click (Some (PathId ''/r/a.py''))]
       initial
     = handle_click env_os 3 (Some (PathId ''/r/a.py'')) browsed"
  by (simp add: run_def browsed_def[symmetric] handle_click_def browsed_facts
      del: fire.simps(2))

lemma env_clicked:
  "checked_items (handle_click env_os 3 (Some (PathId ''/r/a.py'')) browsed) = {PathId ''/r/a.py''}"
  "tree (handle_click env_os 3 (Some (PathId ''/r/a.py'')) browsed) (PathId ''/r/env'')
     = tree browsed (PathId ''/r/env'')"
  by (auto simp: handle_click_def browsed_facts box_empty_def numeral_3_eq_3 children_def
      set_text_def update_total_tokens_def Let_def)

theorem excluded_never_checked_witness:
  "PathId ''/r/a.py'' \<in> checked_items
      (run env_os 3 [Browse ''/r'', Click (Some (PathId ''/r/env'')),
                     Click (Some (PathId ''/r/a.py''))] initial)
   \<and> has_tag (run env_os 3 [Browse ''/r'', Click (Some (PathId ''/r/env'')),
                             Click (Some (PathId ''/r/a.py''))] initial)
        (PathId ''/r/env'') ''excluded''
   \<and> PathId ''/r/env'' \<notin> checked_items
      (run env_os 3 [Browse ''/r'', Click (Some (PathId ''/r/env'')),
                     Click (Some (PathId ''/r/a.py''))] initial)
   \<and> snd (check_item_and_children env_os 3 False (PathId ''/r/env'')
        (run env_os 3 [Browse ''/r'', Click (Some (PathId ''/r/env'')),
                       Click (Some (PathId ''/r/a.py''))] initial))
       = run env_os 3 [Browse ''/r'', Click (Some (PathId ''/r/env'')),
                       Click (Some (PathId ''/r/a.py''))] initial
   \<and> handle_click env_os 3 (Some (PathId ''/r/env''))
        (run env_os 3 [Browse ''/r'', Click (Some (PathId ''/r/env'')),
                       Click (Some (PathId ''/r/a.py''))] initial)
       = run env_os 3 [Browse ''/r'', Click (Some (PathId ''/r/env'')),
                       Click (Some (PathId ''/r/a.py''))] initial"
proof -
  let ?s = "run env_os 3 [Browse ''/r'', Click (Some (PathId ''/r/env'')),
                          Click (Some (PathId ''/r/a.py''))] initial"
  have 1: "PathId ''/r/a.py'' \<in> checked_items ?s"
    unfolding env_clicks by (simp add: env_clicked)
  have 2: "has_tag ?s (PathId ''/r/env'') ''excluded''"
    unfolding env_clicks by (simp add: has_tag_def env_clicked browsed_facts)
  have "no_excluded_checked ?s"
    using excluded_never_checked[of env_os 3 _ initial] by blast
  then have 3: "PathId ''/r/env'' \<notin> checked_items ?s"
    using 2 by (auto simp: no_excluded_checked_def has_tag_def split: option.splits)
  have 4: "snd (check_item_and_children env_os 3 False (PathId ''/r/env'') ?s) = ?s"
    using excluded_never_checked[of env_os 3 "[]" ?s "PathId ''/r/env''" False] 2 by blast
  have 5: "handle_click env_os 3 (Some (PathId ''/r/env'')) ?s = ?s"
    using excluded_never_checked[of env_os 3 "[]" ?s "PathId ''/r/env''" False] 2 by blast
  show ?thesis using 1 2 3 4 5 by blast
qed

subsection \<open>TokenAggregator\<close>

lemma tk_insert1_cache:
  "tk_insert1 parent spec s = Some (new, s') \<Longrightarrow> calculated_directories s' = calculated_directories s"
  by (auto simp: tk_insert1_def attach_def Let_def split: if_splits option.splits)

lemma tk_insert_cache:
  "tk_insert parent spec s = Some s' \<Longrightarrow> calculated_directories s' = calculated_directories s"
proof -
  assume a: "tk_insert parent spec s = Some s'"
  then obtain new s1 where 1: "tk_insert1 parent spec s = Some (new, s1)"
    by (auto simp: tk_insert_def split: option.splits)
  show ?thesis
  proof (cases "ins_dummy spec")
    case False
    then have "s' = s1" using a 1 by (simp add: tk_insert_def)
    then show ?thesis using tk_insert1_cache[OF 1] by simp
  next
    case True
    then obtain d where 2: "tk_insert1 (Some new) dummy_child s1 = Some (d, s')"
      using a 1 by (auto simp: tk_insert_def)
    show ?thesis using tk_insert1_cache[OF 1] tk_insert1_cache[OF 2] by simp
  qed
qed

lemma insert_all_cache [simp]:
  "calculated_directories (insert_all parent specs s) = calculated_directories s"
proof (induction specs arbitrary: s)
  case Nil
  show ?case by simp
next
  case (Cons spec specs)
  show ?case
  proof (cases "tk_insert parent spec s")
    case None
    then show ?thesis by simp
  next
    case (Some s')
    then show ?thesis using Cons.IH[of s'] tk_insert_cache[OF Some] by simp
  qed
qed

lemma populate_tree_cache [simp]:
  "calculated_directories (populate_tree sys parent path exts s) = calculated_directories s"
  by (simp add: populate_tree_def split: prod.splits)

lemma tk_delete_cache [simp]: "calculated_directories (tk_delete i s) = calculated_directories s"
  by (simp add: tk_delete_def)

lemma delete_dummies_cache [simp]:
  "calculated_directories
     (fold (\<lambda>child s'. if has_tag s' child ''dummy'' then tk_delete child s' else s') cs s)
   = calculated_directories s"
  by (induction cs arbitrary: s) auto

lemma populate_if_needed_cache [simp]:
  "calculated_directories (populate_if_needed sys item s) = calculated_directories s"
  by (simp add: populate_if_needed_def Let_def)

lemma set_text_cache [simp]: "calculated_directories (set_text i t s) = calculated_directories s"
  by (simp add: set_text_def)

lemma set_opened_cache [simp]: "calculated_directories (set_opened i b s) = calculated_directories s"
  by (simp add: set_opened_def)

lemma calculate_cache [simp]:
  "calculated_directories (calculate_tokens_for_directory sys d s) = calculated_directories s"
  by (simp add: calculate_tokens_for_directory_def)

lemma update_total_tokens_cache [simp]:
  "calculated_directories (update_total_tokens s) = calculated_directories s"
  by (simp add: update_total_tokens_def)

lemma for_each_cache:
  assumes "\<And>i s. calculated_directories (snd (body i s)) = calculated_directories s"
  shows "calculated_directories (snd (for_each body is s)) = calculated_directories s"
proof (induction "is" arbitrary: s)
  case Nil
  show ?case by simp
next
  case (Cons i "is")
  obtain ok s' where b: "body i s = (ok, s')" by (cases "body i s")
  have "calculated_directories s' = calculated_directories s" using assms[of i s] b by simp
  then show ?case using Cons.IH[of s'] b by (cases ok) auto
qed

lemma for_each_acc_cache:
  assumes "\<And>i s a. calculated_directories (fst (snd (body i (s, a)))) = calculated_directories s"
  shows "calculated_directories (fst (snd (for_each_acc body is (s, a)))) = calculated_directories s"
proof (induction "is" arbitrary: s a)
  case Nil
  show ?case by simp
next
  case (Cons i "is")
  obtain ok s' a' where b: "body i (s, a) = (ok, s', a')" by (cases "body i (s, a)") auto
  have "calculated_directories s' = calculated_directories s" using assms[of i s a] b by simp
  then show ?case using Cons.IH[of s' a'] b by (cases ok) auto
qed

lemma check_item_and_children_cache:
  "calculated_directories (snd (check_item_and_children sys depth skip item s))
     = calculated_directories s"
proof (induction depth arbitrary: item s)
  case 0
  show ?case by simp
next
  case (Suc depth)
  show ?case
  proof (cases "tree s item")
    case None
    then show ?thesis by simp
  next
    case (Some it)
    show ?thesis
    proof (cases "''excluded'' \<in> set (tags it)")
      case True
      then show ?thesis using Some by simp
    next
      case False
      let ?s1 = "set_text item (box_checked @ '' '' @ slice2 (caption it)) s"
      let ?s2 = "?s1\<lparr>checked_items := insert item (checked_items ?s1)\<rparr>"
      let ?s4 = "populate_if_needed sys item (set_opened item True ?s2)"
      let ?s3 = "(if ''folder'' \<in> set (tags it) then
                         (if \<not> skip \<and> iid_path sys item \<notin> calculated_directories ?s4
                          then calculate_tokens_for_directory sys (iid_path sys item) ?s4
                          else ?s4)
                       else ?s2)"
      have c3: "calculated_directories ?s3 = calculated_directories s" by simp
      have "calculated_directories
              (snd (for_each (\<lambda>child s'. check_item_and_children sys depth skip child s')
                  (children ?s3 item) ?s3)) = calculated_directories ?s3"
        by (rule for_each_cache) (rule Suc.IH)
      then have "calculated_directories
              (snd (for_each (\<lambda>child s'. check_item_and_children sys depth skip child s')
                  (children ?s3 item) ?s3)) = calculated_directories s"
        unfolding c3 .
      then show ?thesis
        by (simp only: check_item_and_children.simps Some False option.case if_False Let_def)
    qed
  qed
qed

lemma uncheck_item_and_children_cache:
  "calculated_directories (snd (uncheck_item_and_children depth item s))
     = calculated_directories s"
proof (induction depth arbitrary: item s)
  case 0
  show ?case by simp
next
  case (Suc depth)
  show ?case
  proof (cases "tree s item")
    case None
    then show ?thesis by simp
  next
    case (Some it)
    show ?thesis
    proof (cases "''excluded'' \<in> set (tags it)")
      case True
      then show ?thesis using Some by simp
    next
      case False
      let ?s1 = "set_text item (box_empty @ '' '' @ slice2 (caption it)) s"
      let ?s2 = "?s1\<lparr>checked_items := checked_items ?s1 - {item}\<rparr>"
      have c2: "calculated_directories ?s2 = calculated_directories s" by simp
      have "calculated_directories
              (snd (for_each (\<lambda>child s'. uncheck_item_and_children depth child s')
                  (children ?s2 item) ?s2)) = calculated_directories ?s2"
        by (rule for_each_cache) (rule Suc.IH)
      then have "calculated_directories
              (snd (for_each (\<lambda>child s'. uncheck_item_and_children depth child s')
                  (children ?s2 item) ?s2)) = calculated_directories s"
        unfolding c2 .
      then show ?thesis
        by (simp only: uncheck_item_and_children.simps Some False option.case if_False Let_def)
    qed
  qed
qed

lemma handle_click_cache [simp]:
  "calculated_directories (handle_click sys depth target s) = calculated_directories s"
proof (cases target)
  case None
  then show ?thesis by (simp add: handle_click_def)
next
  case (Some item)
  obtain ok1 s1 where c: "check_item_and_children sys depth True item s = (ok1, s1)"
    by (cases "check_item_and_children sys depth True item s")
  obtain ok2 s2 where u: "uncheck_item_and_children depth item s = (ok2, s2)"
    by (cases "uncheck_item_and_children depth item s")
  have 1: "calculated_directories s1 = calculated_directories s"
    using check_item_and_children_cache[of sys depth True item s] c by simp
  have 2: "calculated_directories s2 = calculated_directories s"
    using uncheck_item_and_children_cache[of depth item s] u by simp
  show ?thesis
    using Some c u 1 2
    by (cases "tree s item"; cases ok1; cases ok2) (simp_all add: handle_click_def Let_def)
qed

lemma on_folder_open_cache [simp]:
  "calculated_directories (on_folder_open sys item s) = calculated_directories s"
  by (cases "tree s item") (simp_all add: on_folder_open_def)

lemma on_folder_close_cache [simp]:
  "calculated_directories (on_folder_close depth item s) = calculated_directories s"
proof -
  obtain ok2 s2 where u: "uncheck_item_and_children depth item s = (ok2, s2)"
    by (cases "uncheck_item_and_children depth item s")
  have 2: "calculated_directories s2 = calculated_directories s"
    using uncheck_item_and_children_cache[of depth item s] u by simp
  show ?thesis
    using u 2 by (cases "tree s item"; cases ok2) (simp_all add: on_folder_close_def)
qed

lemma expand_and_select_children_cache:
  "calculated_directories (fst (snd (expand_and_select_children sys depth item (s, a))))
     = calculated_directories s"
proof (induction depth arbitrary: item s a)
  case 0
  show ?case by simp
next
  case (Suc depth)
  show ?case
  proof (cases "tree s item")
    case None
    then show ?thesis by simp
  next
    case (Some it)
    show ?thesis
    proof (cases "''excluded'' \<in> set (tags it)")
      case True
      then show ?thesis using Some by simp
    next
      case False
      obtain ok1 s1 where c: "check_item_and_children sys depth True item s = (ok1, s1)"
        by (cases "check_item_and_children sys depth True item s")
      have c1: "calculated_directories s1 = calculated_directories s"
        using check_item_and_children_cache[of sys depth True item s] c by simp
      show ?thesis
      proof (cases "ok1 \<and> ''folder'' \<in> set (tags it)")
        case no: False
        then show ?thesis using Some False c c1 by (cases ok1) auto
      next
        case True
        let ?s2 = "populate_if_needed sys item (set_opened item True s1)"
        let ?folders = "(if iid_path sys item \<notin> calculated_directories ?s2
                                   then a @ [iid_path sys item] else a)"
        have c2: "calculated_directories ?s2 = calculated_directories s" using c1 by simp
        have "calculated_directories (fst (snd (for_each_acc
                         (\<lambda>child sa. expand_and_select_children sys depth child sa)
                         (children ?s2 item) (?s2, ?folders)))) = calculated_directories ?s2"
          by (rule for_each_acc_cache) (rule Suc.IH)
        then have "calculated_directories (fst (snd (for_each_acc
                         (\<lambda>child sa. expand_and_select_children sys depth child sa)
                         (children ?s2 item) (?s2, ?folders)))) = calculated_directories s"
          unfolding c2 .
        then show ?thesis
          using True
          by (simp only: expand_and_select_children.simps Some False
              option.case if_False if_True c prod.case bool.case Let_def)
      qed
    qed
  qed
qed

lemma start_calculations_cache [simp]:
  "calculated_directories (start_calculations sys folders s) = calculated_directories s"
  by (induction folders arbitrary: s) auto

lemma expand_all_folders_cache [simp]:
  "calculated_directories (expand_all_folders sys depth s) = calculated_directories s"
proof -
  let ?s1 = "s\<lparr>checked_items := {}, pending_calculations := Some 0,
                    calculation_results := Map.empty, cancel_operation := False\<rparr>"
  obtain ok s2 folders
    where e: "for_each_acc (\<lambda>item sa. expand_and_select_children sys depth item sa)
                (root_kids ?s1) (?s1, []) = (ok, s2, folders)"
    by (cases "for_each_acc (\<lambda>item sa. expand_and_select_children sys depth item sa)
                (root_kids ?s1) (?s1, [])") auto
  have "calculated_directories (fst (snd (for_each_acc
            (\<lambda>item sa. expand_and_select_children sys depth item sa)
                (root_kids ?s1) (?s1, [])))) = calculated_directories ?s1"
    by (rule for_each_acc_cache) (rule expand_and_select_children_cache)
  then have c2: "calculated_directories s2 = calculated_directories s" using e by simp
  show ?thesis
    unfolding expand_all_folders_def Let_def e using c2 by (cases ok) simp_all
qed

lemma collapse_and_deselect_cache:
  "calculated_directories (snd (collapse_and_deselect depth item s)) = calculated_directories s"
proof (induction depth arbitrary: item s)
  case 0
  show ?case by simp
next
  case (Suc depth)
  show ?case
  proof (cases "tree s item")
    case None
    then show ?thesis by simp
  next
    case (Some it)
    let ?s1 = "(if ''excluded'' \<notin> set (tags it) \<and> startswith (caption it) box_checked
                     then set_text item (box_empty @ '' '' @ slice2 (caption it)) s
                     else s)"
    have c1: "calculated_directories ?s1 = calculated_directories s" by simp
    obtain ok s2 where f: "for_each (\<lambda>child s'. collapse_and_deselect depth child s')
                        (children ?s1 item) ?s1 = (ok, s2)"
      by (cases "for_each (\<lambda>child s'. collapse_and_deselect depth child s')
                        (children ?s1 item) ?s1")
    have "calculated_directories (snd (for_each (\<lambda>child s'. collapse_and_deselect depth child s')
                        (children ?s1 item) ?s1)) = calculated_directories ?s1"
      by (rule for_each_cache) (rule Suc.IH)
    then have c2: "calculated_directories s2 = calculated_directories s" using f c1 by simp
    show ?thesis
      unfolding collapse_and_deselect.simps Some option.case Let_def f
      using c1 c2 by (cases ok) simp_all
  qed
qed

lemma collapse_all_folders_cache [simp]:
  "calculated_directories (collapse_all_folders depth s) = calculated_directories s"
proof -
  let ?s1 = "s\<lparr>checked_items := {}\<rparr>"
  obtain ok s2 where f: "for_each (\<lambda>item s'. collapse_and_deselect depth item s')
                           (root_kids ?s1) ?s1 = (ok, s2)"
    by (cases "for_each (\<lambda>item s'. collapse_and_deselect depth item s') (root_kids ?s1) ?s1")
  have "calculated_directories (snd (for_each (\<lambda>item s'. collapse_and_deselect depth item s')
                           (root_kids ?s1) ?s1)) = calculated_directories ?s1"
    by (rule for_each_cache) (rule collapse_and_deselect_cache)
  then have c2: "calculated_directories s2 = calculated_directories s" using f by simp
  show ?thesis
    unfolding collapse_all_folders_def Let_def f using c2 by (cases ok) simp_all
qed

lemma refresh_files_cache [simp]:
  "calculated_directories (refresh_files sys s) = calculated_directories s"
  by (simp add: refresh_files_def)

lemma browse_directory_cache [simp]:
  "calculated_directories (browse_directory sys d s) = calculated_directories s"
  by (simp add: browse_directory_def)

lemma toggle_exclude_cache [simp]:
  "calculated_directories (toggle_exclude sys s) = calculated_directories s"
  by (simp add: toggle_exclude_def Let_def)

lemma worker_step_cache [simp]:
  "calculated_directories (worker_step sys k s) = calculated_directories s"
  by (auto simp: worker_step_def Let_def split: prod.splits)

lemma cleanup_cache [simp]:
  "calculated_directories (cleanup_calculation_ui s) = calculated_directories s"
  by (simp add: cleanup_calculation_ui_def)
























end
